theory Spec2Isabelle
  imports Main "HOL-Library.AList" "HOL-Library.Sublist" "HOL-Library.Multiset"
begin

section \<open>PriorityQueue: base rotation with a priority overlay\<close>

text \<open>
  The class \<^verbatim>\<open>PriorityQueue\<close> keeps the rotation array \<^verbatim>\<open>urls\<close>, the cursor
  \<^verbatim>\<open>currentIndex\<close>, the insertion-ordered \<^verbatim>\<open>Map\<close> \<^verbatim>\<open>priorityMap\<close> (url to
  \<^verbatim>\<open>{priority, addedAt}\<close>), the \<^verbatim>\<open>Map\<close> \<^verbatim>\<open>lastPriorityCheck\<close> (url to timestamp) and
  the two constants \<^verbatim>\<open>maxLineCuts\<close> and \<^verbatim>\<open>priorityCheckInterval\<close>.

  \<^verbatim>\<open>priorityMap\<close> is iterated, so it is an association list in insertion order:
  \<^verbatim>\<open>set\<close> on a present key replaces the value in place, on a new key appends, and
  \<^verbatim>\<open>delete\<close> removes the entry. \<^verbatim>\<open>lastPriorityCheck\<close> is only read and written by
  key, so it is a map. Timestamps (\<^verbatim>\<open>Date.now()\<close>) and priorities are integers; the
  clock is an argument of every operation that reads it.
\<close>

type_synonym url = string

record priorityInfo =
  priority :: int
  addedAt :: int

record PriorityQueue =
  urls :: "url list"
  currentIndex :: nat
  priorityMap :: "(url \<times> priorityInfo) list"
  lastPriorityCheck :: "url \<rightharpoonup> int"
  maxLineCuts :: int
  priorityCheckInterval :: int

definition newPriorityQueue :: PriorityQueue where
  "newPriorityQueue =
     \<lparr>urls = [], currentIndex = 0, priorityMap = [], lastPriorityCheck = Map.empty,
      maxLineCuts = 5, priorityCheckInterval = 30000\<rparr>"

definition initialize :: "url list \<Rightarrow> PriorityQueue \<Rightarrow> PriorityQueue" where
  "initialize us q =
     q\<lparr>urls := us, currentIndex := 0, priorityMap := [], lastPriorityCheck := Map.empty\<rparr>"

text \<open>
  \<^verbatim>\<open>setPriority(url, priority, reason)\<close>: priority 0 deletes the record and its
  last-check stamp (only when a record exists); an unchanged priority only refreshes
  \<^verbatim>\<open>addedAt\<close>; anything else stores a fresh record. The stamp in
  \<^verbatim>\<open>lastPriorityCheck\<close> is left alone by the last two branches.
\<close>

definition setPriority :: "url \<Rightarrow> int \<Rightarrow> int \<Rightarrow> PriorityQueue \<Rightarrow> PriorityQueue" where
  "setPriority u p now q =
     (if p = 0 then
        (if map_of (priorityMap q) u \<noteq> None
         then q\<lparr>priorityMap := AList.delete u (priorityMap q),
                lastPriorityCheck := (lastPriorityCheck q)(u := None)\<rparr>
         else q)
      else
        (case map_of (priorityMap q) u of
           Some existingPriority \<Rightarrow>
             if priority existingPriority = p
             then q\<lparr>priorityMap :=
                      AList.update u (existingPriority\<lparr>addedAt := now\<rparr>) (priorityMap q)\<rparr>
             else q\<lparr>priorityMap :=
                      AList.update u \<lparr>priority = p, addedAt = now\<rparr> (priorityMap q)\<rparr>
         | None \<Rightarrow>
             q\<lparr>priorityMap := AList.update u \<lparr>priority = p, addedAt = now\<rparr> (priorityMap q)\<rparr>))"

text \<open>\<^verbatim>\<open>Array.prototype.indexOf\<close>: the first index holding the value, \<^verbatim>\<open>-1\<close> as \<open>None\<close>.\<close>

fun indexOf :: "'a list \<Rightarrow> 'a \<Rightarrow> nat option" where
  "indexOf [] x = None"
| "indexOf (y # ys) x = (if y = x then Some 0 else map_option Suc (indexOf ys x))"

text \<open>
  \<^verbatim>\<open>canCutInLine(url, priority)\<close>. The local \<^verbatim>\<open>cutDistance\<close> is computed on integers,
  as the source does; \<^verbatim>\<open>maxCutsForPriority[priority] || 0\<close> gives 0 for every priority
  other than 1, 2 and 3.
\<close>

definition cutDistance :: "PriorityQueue \<Rightarrow> nat \<Rightarrow> int" where
  "cutDistance q urlIndex =
     (if urlIndex \<ge> currentIndex q then int urlIndex - int (currentIndex q)
      else (int (length (urls q)) - int (currentIndex q)) + int urlIndex)"

definition maxCutsForPriority :: "PriorityQueue \<Rightarrow> int \<Rightarrow> int" where
  "maxCutsForPriority q p =
     (if p = 1 then maxLineCuts q * 2
      else if p = 2 then maxLineCuts q
      else if p = 3 then maxLineCuts q div 2
      else 0)"

definition canCutInLine :: "PriorityQueue \<Rightarrow> url \<Rightarrow> int \<Rightarrow> bool" where
  "canCutInLine q u p =
     (case indexOf (urls q) u of
        None \<Rightarrow> False
      | Some urlIndex \<Rightarrow> cutDistance q urlIndex \<le> maxCutsForPriority q p)"

text \<open>
  \<^verbatim>\<open>getNextPriorityUrl()\<close>. The ready records are collected in the iteration order of
  the \<^verbatim>\<open>Map\<close>, sorted with the comparator of the source by the (stable)
  \<^verbatim>\<open>Array.prototype.sort\<close>, and the first one that may cut in line is stamped and
  returned.
\<close>

definition lastCheckOf :: "PriorityQueue \<Rightarrow> url \<Rightarrow> int" where
  "lastCheckOf q u = (case lastPriorityCheck q u of None \<Rightarrow> 0 | Some t \<Rightarrow> t)"

definition readyPriorityUrls :: "int \<Rightarrow> PriorityQueue \<Rightarrow> (url \<times> priorityInfo) list" where
  "readyPriorityUrls now q =
     filter (\<lambda>(u, info). now - lastCheckOf q u \<ge> priorityCheckInterval q) (priorityMap q)"

definition compareFn :: "url \<times> priorityInfo \<Rightarrow> url \<times> priorityInfo \<Rightarrow> int" where
  "compareFn a b =
     (if priority (snd a) \<noteq> priority (snd b) then priority (snd a) - priority (snd b)
      else addedAt (snd a) - addedAt (snd b))"

fun insertSorted ::
  "url \<times> priorityInfo \<Rightarrow> (url \<times> priorityInfo) list \<Rightarrow> (url \<times> priorityInfo) list" where
  "insertSorted x [] = [x]"
| "insertSorted x (y # ys) =
     (if compareFn x y \<le> 0 then x # y # ys else y # insertSorted x ys)"

definition stableSort :: "(url \<times> priorityInfo) list \<Rightarrow> (url \<times> priorityInfo) list" where
  "stableSort xs = foldr insertSorted xs []"

definition getNextPriorityUrl :: "int \<Rightarrow> PriorityQueue \<Rightarrow> url option \<times> PriorityQueue" where
  "getNextPriorityUrl now q =
     (let ready = readyPriorityUrls now q in
      if length ready = 0 then (None, q)
      else
        (case find (\<lambda>(u, info). canCutInLine q u (priority info)) (stableSort ready) of
           Some (u, info) \<Rightarrow>
             (Some u, q\<lparr>lastPriorityCheck := (lastPriorityCheck q)(u \<mapsto> now)\<rparr>)
         | None \<Rightarrow> (None, q)))"

text \<open>
  \<^verbatim>\<open>getNextUrl()\<close>. The test \<^verbatim>\<open>if (priorityUrl)\<close> is a truthiness test: \<^verbatim>\<open>null\<close> and
  the empty string both fall through to the base rotation. A read of \<^verbatim>\<open>urls\<close> past
  its end gives \<^verbatim>\<open>undefined\<close>, here \<open>None\<close> like \<^verbatim>\<open>null\<close>.
\<close>

definition nextRegularUrl :: "PriorityQueue \<Rightarrow> url option \<times> PriorityQueue" where
  "nextRegularUrl q =
     ((if currentIndex q < length (urls q) then Some (urls q ! currentIndex q) else None),
      q\<lparr>currentIndex := (currentIndex q + 1) mod length (urls q)\<rparr>)"

definition getNextUrl :: "int \<Rightarrow> PriorityQueue \<Rightarrow> url option \<times> PriorityQueue" where
  "getNextUrl now q =
     (if length (urls q) = 0 then (None, q)
      else
        (case getNextPriorityUrl now q of
           (Some priorityUrl, q') \<Rightarrow>
             if priorityUrl \<noteq> [] then (Some priorityUrl, q') else nextRegularUrl q'
         | (None, q') \<Rightarrow> nextRegularUrl q'))"

text \<open>
  \<^verbatim>\<open>getStatus()\<close>. \<^verbatim>\<open>cycle\<close> is \<^verbatim>\<open>Math.floor(currentIndex / urls.length) + 1\<close>; with an
  empty rotation the quotient is not a finite number, which is \<open>None\<close> here.
  \<^verbatim>\<open>priorityStats\<close> counts the records by the name \<^verbatim>\<open>getPriorityName\<close> gives.
\<close>

definition getPriorityName :: "int \<Rightarrow> string" where
  "getPriorityName p =
     (if p = 1 then ''HIGH'' else if p = 2 then ''MEDIUM'' else if p = 3 then ''LOW''
      else ''UNKNOWN'')"

record queueStatus =
  totalUrls :: nat
  currentPosition :: nat
  cycle :: "nat option"
  priorityStats :: "string \<rightharpoonup> nat"

fun countPriorities :: "(url \<times> priorityInfo) list \<Rightarrow> (string \<rightharpoonup> nat) \<Rightarrow> (string \<rightharpoonup> nat)" where
  "countPriorities [] stats = stats"
| "countPriorities ((u, info) # rest) stats =
     countPriorities rest
       (stats(getPriorityName (priority info) \<mapsto>
          (case stats (getPriorityName (priority info)) of None \<Rightarrow> 0 | Some c \<Rightarrow> c) + 1))"

definition getStatus :: "PriorityQueue \<Rightarrow> queueStatus" where
  "getStatus q =
     \<lparr>totalUrls = length (urls q),
      currentPosition = currentIndex q + 1,
      cycle = (if length (urls q) = 0 then None
               else Some (currentIndex q div length (urls q) + 1)),
      priorityStats = countPriorities (priorityMap q) Map.empty\<rparr>"

text \<open>
  The states a caller can bring the queue into: a fresh queue initialised with a rotation,
  then any sequence of \<^verbatim>\<open>setPriority\<close> and \<^verbatim>\<open>getNextUrl\<close> calls at any clock values.
\<close>

inductive reachable :: "PriorityQueue \<Rightarrow> bool" where
  reachable_initialize: "reachable (initialize us newPriorityQueue)"
| reachable_setPriority: "reachable q \<Longrightarrow> reachable (setPriority u p now q)"
| reachable_getNextUrl: "reachable q \<Longrightarrow> reachable (snd (getNextUrl now q))"

text \<open>
  The order of the specification, in its words: tier ascending, older promotion first
  among equal tiers. Its distance: the number of forward steps, wrapping at the end of
  the rotation, from the cursor to a position. Its throttle: the record was never checked,
  or its last check is at least 30 seconds (30000 ms) in the past.
\<close>

definition keyLe :: "priorityInfo \<Rightarrow> priorityInfo \<Rightarrow> bool" where
  "keyLe a b =
     (priority a < priority b \<or> (priority a = priority b \<and> addedAt a \<le> addedAt b))"

definition forwardSteps :: "PriorityQueue \<Rightarrow> nat \<Rightarrow> int" where
  "forwardSteps q idx = (int idx - int (currentIndex q)) mod int (length (urls q))"

definition throttleElapsed :: "int \<Rightarrow> PriorityQueue \<Rightarrow> url \<Rightarrow> bool" where
  "throttleElapsed now q u =
     (case lastPriorityCheck q u of None \<Rightarrow> True | Some t \<Rightarrow> now - t \<ge> 30000)"

text \<open>\<open>k\<close> successive \<^verbatim>\<open>getNextUrl()\<close> calls at the clock values \<open>clock 0, clock 1, \<dots>\<close>.\<close>

fun pulls :: "nat \<Rightarrow> (nat \<Rightarrow> int) \<Rightarrow> PriorityQueue \<Rightarrow> PriorityQueue" where
  "pulls 0 clock q = q"
| "pulls (Suc k) clock q = snd (getNextUrl (clock k) (pulls k clock q))"

section \<open>StockBot: building the rotation\<close>

text \<open>
  \<^verbatim>\<open>interleaveUrls()\<close> copies every product's url list into \<^verbatim>\<open>urlQueues\<close> and, while
  some queue is non-empty, walks the queues in order and shifts the head of each
  non-empty one onto \<^verbatim>\<open>interleavedUrls\<close>. \<open>shiftRound\<close> is one run of the inner
  \<^verbatim>\<open>for\<close> loop: the urls it pushed and the queues it leaves.
\<close>

record product =
  baseUrl :: string
  productCount :: nat
  spuExtId :: int
  productUrls :: "url list"

fun shiftRound :: "'a list list \<Rightarrow> 'a list \<times> 'a list list" where
  "shiftRound [] = ([], [])"
| "shiftRound ([] # queues) = (let (out, rest) = shiftRound queues in (out, [] # rest))"
| "shiftRound ((x # queue) # queues) =
     (let (out, rest) = shiftRound queues in (x # out, queue # rest))"

function interleaveLoop :: "'a list list \<Rightarrow> 'a list \<Rightarrow> 'a list" where
  "interleaveLoop urlQueues interleavedUrls =
     (if list_ex (\<lambda>queue. length queue > 0) urlQueues
      then interleaveLoop (snd (shiftRound urlQueues)) (interleavedUrls @ fst (shiftRound urlQueues))
      else interleavedUrls)"
  by pat_completeness auto

lemma shiftRound_sum_length:
  "sum_list (map length (snd (shiftRound qs))) + length (fst (shiftRound qs)) = sum_list (map length qs)"
  by (induction qs rule: shiftRound.induct) (auto simp: case_prod_beta Let_def)

lemma shiftRound_nonempty:
  "list_ex (\<lambda>queue. length queue > 0) qs \<Longrightarrow> fst (shiftRound qs) \<noteq> []"
  by (induction qs rule: shiftRound.induct) (auto simp: case_prod_beta Let_def)

termination interleaveLoop
proof (relation "measure (\<lambda>(qs, acc). sum_list (map length qs))", goal_cases)
  case 1
  show ?case by simp
next
  case (2 urlQueues interleavedUrls)
  from shiftRound_nonempty [OF 2] have "0 < length (fst (shiftRound urlQueues))" by simp
  with shiftRound_sum_length [of urlQueues]
  have "sum_list (map length (snd (shiftRound urlQueues))) < sum_list (map length urlQueues)"
    by linarith
  then show ?case by simp
qed

declare interleaveLoop.simps [simp del]

definition interleaveUrls :: "product list \<Rightarrow> PriorityQueue \<Rightarrow> PriorityQueue" where
  "interleaveUrls products q = initialize (interleaveLoop (map productUrls products) []) q"

section \<open>StockBot: processing an observation\<close>

text \<open>
  The response of the page is \<^verbatim>\<open>extractedData\<close>; \<open>None\<close> stands for every value on
  which \<^verbatim>\<open>extractedData?.data?.box_list\<close> is falsy. A box carries a position, a numeric
  state and an optional \<^verbatim>\<open>box_no\<close>.

  A stored entry is an object with the fields \<^verbatim>\<open>url, state0 .. state5, stock,
  lastChecked\<close>. An entry read back from a file has only the columns the file had, so each
  field is optional (\<open>None\<close> is \<^verbatim>\<open>undefined\<close>); the entries built here have all nine.
\<close>

record box =
  position :: int
  state :: int
  box_no :: "string option"

record apiData =
  spu_ext_id :: int
  box_list :: "box list"

record stockEntry =
  url :: "string option"
  state0 :: "string option"
  state1 :: "string option"
  state2 :: "string option"
  state3 :: "string option"
  state4 :: "string option"
  state5 :: "string option"
  stock :: "string option"
  lastChecked :: "string option"

text \<open>
  The bot: the queue, the in-memory store \<^verbatim>\<open>stockData\<close> (group to insertion-ordered
  \<^verbatim>\<open>Map\<close> of url to entry), whether \<^verbatim>\<open>webServer\<close> is set, and the two effects of
  processing: the last content written to each group's \<^verbatim>\<open>.tsv\<close> file and the list of
  \<^verbatim>\<open>broadcastUpdate\<close> calls made so far.
\<close>

record StockBot =
  priorityQueue :: PriorityQueue
  stockData :: "int \<rightharpoonup> (url \<times> stockEntry) list"
  webServer :: bool
  tsvFiles :: "int \<rightharpoonup> string"
  broadcasts :: "(int \<times> url \<times> stockEntry) list"

text \<open>\<^verbatim>\<open>String.prototype.trim\<close> leaves the empty string iff every character is white space.\<close>

definition isWhiteSpace :: "char \<Rightarrow> bool" where
  "isWhiteSpace c =
     (c = CHR '' '' \<or> c = CHR 0x09 \<or> c = CHR 0x0A \<or> c = CHR 0x0B \<or> c = CHR 0x0C \<or> c = CHR 0x0D)"

definition hasBoxNo :: "box \<Rightarrow> bool" where
  "hasBoxNo b =
     (case box_no b of
        None \<Rightarrow> False
      | Some s \<Rightarrow> s \<noteq> [] \<and> list_ex (\<lambda>c. \<not> isWhiteSpace c) s)"

definition inRange :: "box \<Rightarrow> bool" where
  "inRange b = (position b \<ge> 1 \<and> position b \<le> 6)"

text \<open>
  \<^verbatim>\<open>updateUrlPriority(url, extractedData)\<close>: reserved is state 2, in stock is state 0
  with a \<^verbatim>\<open>box_no\<close>, both over the boxes at positions 1 to 6.
\<close>

definition updateUrlPriority :: "url \<Rightarrow> apiData option \<Rightarrow> int \<Rightarrow> PriorityQueue \<Rightarrow> PriorityQueue" where
  "updateUrlPriority u extractedData now q =
     (case extractedData of
        None \<Rightarrow> setPriority u 0 now q
      | Some d \<Rightarrow>
          (let hasReserved = list_ex (\<lambda>b. inRange b \<and> state b = 2) (box_list d);
               hasInStock = list_ex (\<lambda>b. inRange b \<and> state b = 0 \<and> hasBoxNo b) (box_list d)
           in if hasReserved \<and> hasInStock then setPriority u 1 now q
              else if hasReserved then setPriority u 2 now q
              else if hasInStock then setPriority u 3 now q
              else setPriority u 0 now q))"

text \<open>\<^verbatim>\<open>Number.prototype.toString\<close> on an integer: its decimal digits.\<close>

fun showNat :: "nat \<Rightarrow> string" where
  "showNat n =
     (if n < 10 then [''0123456789'' ! n]
      else showNat (n div 10) @ [''0123456789'' ! (n mod 10)])"

declare showNat.simps [simp del]

definition showInt :: "int \<Rightarrow> string" where
  "showInt i = (if i < 0 then CHR ''-'' # showNat (nat (- i)) else showNat (nat i))"

text \<open>
  The six state slots: \<^verbatim>\<open>new Array(6).fill('')\<close>, then every box at a position from 1
  to 6 writes its state into slot \<^verbatim>\<open>position - 1\<close>, in list order (a later box wins).
\<close>

fun fillStates :: "box list \<Rightarrow> string list \<Rightarrow> string list" where
  "fillStates [] states = states"
| "fillStates (b # bs) states =
     fillStates bs
       (if inRange b then states[nat (position b - 1) := showInt (state b)] else states)"

definition extractStates :: "box list \<Rightarrow> string list" where
  "extractStates boxList = fillStates boxList (replicate 6 [])"

definition extractHasStock :: "box list \<Rightarrow> bool" where
  "extractHasStock boxList = list_ex (\<lambda>b. inRange b \<and> hasBoxNo b) boxList"

definition makeStockEntry :: "url \<Rightarrow> string list \<Rightarrow> bool \<Rightarrow> string \<Rightarrow> stockEntry" where
  "makeStockEntry u states hasStock isoNow =
     \<lparr>url = Some u,
      state0 = Some (states ! 0), state1 = Some (states ! 1), state2 = Some (states ! 2),
      state3 = Some (states ! 3), state4 = Some (states ! 4), state5 = Some (states ! 5),
      stock = Some (if hasStock then ''true'' else ''false''),
      lastChecked = Some isoNow\<rparr>"

text \<open>
  \<^verbatim>\<open>Array.prototype.join\<close>: an \<^verbatim>\<open>undefined\<close> element is rendered as the empty string.
  \<^verbatim>\<open>hasDataChanged(existingEntry, newEntry)\<close> compares the joined state slots and the
  stock field; nothing else of either entry is read.
\<close>

fun joinWith :: "string \<Rightarrow> string list \<Rightarrow> string" where
  "joinWith sep [] = []"
| "joinWith sep [x] = x"
| "joinWith sep (x # y # ys) = x @ sep @ joinWith sep (y # ys)"

definition orEmpty :: "string option \<Rightarrow> string" where
  "orEmpty v = (case v of None \<Rightarrow> [] | Some s \<Rightarrow> s)"

definition joinedStates :: "stockEntry \<Rightarrow> string" where
  "joinedStates e =
     joinWith '' '' (map orEmpty [state0 e, state1 e, state2 e, state3 e, state4 e, state5 e])"

definition hasDataChanged :: "stockEntry option \<Rightarrow> stockEntry \<Rightarrow> bool" where
  "hasDataChanged existingEntry newEntry =
     (case existingEntry of
        None \<Rightarrow> True
      | Some e \<Rightarrow> joinedStates e \<noteq> joinedStates newEntry \<or> stock e \<noteq> stock newEntry)"

text \<open>
  \<^verbatim>\<open>updateTsvFile(spuExtId)\<close> rewrites the whole file of the group from the in-memory
  map: the header line, then one line per entry in the order of the map, every missing or
  empty field as the empty string. Nothing is written for a missing or empty map.
\<close>

definition tsvHeaders :: "string list" where
  "tsvHeaders =
     [''url'', ''state0'', ''state1'', ''state2'', ''state3'', ''state4'', ''state5'',
      ''stock'', ''lastChecked'']"

definition tsvLine :: "stockEntry \<Rightarrow> string" where
  "tsvLine e =
     joinWith [CHR 0x09]
       (map orEmpty
          [url e, state0 e, state1 e, state2 e, state3 e, state4 e, state5 e, stock e,
           lastChecked e])"

definition tsvContent :: "(url \<times> stockEntry) list \<Rightarrow> string" where
  "tsvContent urlMap =
     joinWith [CHR 0x0A] (joinWith [CHR 0x09] tsvHeaders # map (\<lambda>(u, e). tsvLine e) urlMap)"

definition updateTsvFile :: "int \<Rightarrow> StockBot \<Rightarrow> StockBot" where
  "updateTsvFile sid sb =
     (case stockData sb sid of
        None \<Rightarrow> sb
      | Some urlMap \<Rightarrow>
          if length urlMap = 0 then sb
          else sb\<lparr>tsvFiles := (tsvFiles sb)(sid \<mapsto> tsvContent urlMap)\<rparr>)"

text \<open>
  \<^verbatim>\<open>processStockData(extractedData, url, proxyRegion)\<close>. The clock is read twice
  (\<^verbatim>\<open>Date.now()\<close> inside \<^verbatim>\<open>setPriority\<close>, \<^verbatim>\<open>new Date().toISOString()\<close> for the entry);
  both readings are arguments. \<open>onDisk\<close> is what \<^verbatim>\<open>loadExistingTsvData\<close> would put into
  \<^verbatim>\<open>stockData\<close> for the group (the parsed file, or an empty map when there is none);
  it is stored, and used, only when the group is not yet in memory. \<^verbatim>\<open>proxyRegion\<close> is only logged.
\<close>

definition processStockData ::
  "apiData option \<Rightarrow> url \<Rightarrow> int \<Rightarrow> string \<Rightarrow> (url \<times> stockEntry) list \<Rightarrow> StockBot \<Rightarrow> StockBot" where
  "processStockData extractedData u now isoNow onDisk sb =
     (case extractedData of
        None \<Rightarrow> sb
      | Some d \<Rightarrow>
          (let spuExtId = spu_ext_id d;
               boxList = box_list d;
               sb1 = sb\<lparr>priorityQueue := updateUrlPriority u extractedData now (priorityQueue sb)\<rparr>;
               stockEntry = makeStockEntry u (extractStates boxList) (extractHasStock boxList) isoNow;
               urlMap = (case stockData sb1 spuExtId of None \<Rightarrow> onDisk | Some m \<Rightarrow> m);
               sb2 = sb1\<lparr>stockData := (stockData sb1)(spuExtId \<mapsto> urlMap)\<rparr>;
               existingEntry = map_of urlMap u;
               dataChanged = hasDataChanged existingEntry stockEntry;
               sb3 = (if dataChanged
                       then updateTsvFile spuExtId
                              (sb2\<lparr>stockData :=
                                      (stockData sb2)(spuExtId \<mapsto> AList.update u stockEntry urlMap)\<rparr>)
                       else sb2)
           in if webServer sb3
              then sb3\<lparr>broadcasts := broadcasts sb3 @ [(spuExtId, u, stockEntry)]\<rparr>
              else sb3))"

section \<open>ProxyManager: retry with backoff\<close>

text \<open>
  A thrown error is an object with an optional \<^verbatim>\<open>message\<close> and an optional \<^verbatim>\<open>code\<close>.
  \<^verbatim>\<open>shouldRetryError(error)\<close> holds when one of six signatures occurs in the message or
  in the code (\<^verbatim>\<open>?.includes\<close>: a missing field matches nothing).
\<close>

record errorObj =
  message :: "string option"
  code :: "string option"

definition strIncludes :: "string option \<Rightarrow> string \<Rightarrow> bool" where
  "strIncludes field pat = (case field of None \<Rightarrow> False | Some s \<Rightarrow> sublist pat s)"

definition retryableErrors :: "string list" where
  "retryableErrors =
     [''Too many concurrent attempts'', ''Throttling'', ''RequestLimitExceeded'',
      ''ServiceUnavailable'', ''InternalError'', ''Rate exceeded'']"

definition shouldRetryError :: "errorObj \<Rightarrow> bool" where
  "shouldRetryError error =
     list_ex (\<lambda>retryableError. strIncludes (message error) retryableError
                              \<or> strIncludes (code error) retryableError) retryableErrors"

record retryConfig =
  maxRetries :: nat
  baseDelay :: nat
  maxDelay :: nat

definition defaultRetryConfig :: retryConfig where
  "defaultRetryConfig = \<lparr>maxRetries = 4, baseDelay = 1500, maxDelay = 15000\<rparr>"

text \<open>
  \<^verbatim>\<open>retryWithBackoff(operation, operationName, region)\<close>. The operation acts on the
  outside world \<open>'w\<close> and either returns a value or throws; \<^verbatim>\<open>this.delay(ms)\<close> lets the
  world move on. What the function throws is the caught error object itself, or
  \<^verbatim>\<open>undefined\<close> (the initial \<^verbatim>\<open>lastError\<close>) when the loop body never runs.
  \<open>retryFrom\<close> is the \<^verbatim>\<open>for\<close> loop from a given value of \<^verbatim>\<open>attempt\<close>.
\<close>

datatype thrown = Thrown errorObj | ThrownUndefined

definition backoffDelay :: "retryConfig \<Rightarrow> nat \<Rightarrow> nat" where
  "backoffDelay cfg attempt = min (baseDelay cfg * 2 ^ (attempt - 1)) (maxDelay cfg)"

function retryFrom ::
  "retryConfig \<Rightarrow> ('w \<Rightarrow> (errorObj + 'a) \<times> 'w) \<Rightarrow> (nat \<Rightarrow> 'w \<Rightarrow> 'w) \<Rightarrow> nat \<Rightarrow> thrown \<Rightarrow> 'w
     \<Rightarrow> (thrown + 'a) \<times> 'w" where
  "retryFrom cfg operation delay attempt lastError w =
     (if attempt \<le> maxRetries cfg then
        (case operation w of
           (Inr result, w') \<Rightarrow> (Inr result, w')
         | (Inl error, w') \<Rightarrow>
             if \<not> shouldRetryError error \<or> attempt = maxRetries cfg
             then (Inl (Thrown error), w')
             else retryFrom cfg operation delay (attempt + 1) (Thrown error)
                    (delay (backoffDelay cfg attempt) w'))
      else (Inl lastError, w))"
  by pat_completeness auto
termination
  by (relation "measure (\<lambda>(cfg, operation, delay, attempt, lastError, w). maxRetries cfg + 1 - attempt)")
     auto

declare retryFrom.simps [simp del]

definition retryWithBackoff ::
  "retryConfig \<Rightarrow> ('w \<Rightarrow> (errorObj + 'a) \<times> 'w) \<Rightarrow> (nat \<Rightarrow> 'w \<Rightarrow> 'w) \<Rightarrow> 'w \<Rightarrow> (thrown + 'a) \<times> 'w" where
  "retryWithBackoff cfg operation delay w = retryFrom cfg operation delay 1 ThrownUndefined w"

text \<open>
  A world that only counts: how often the operation was invoked and which delays were
  slept, in order. \<open>scripted outcomes\<close> is the operation whose invocation number \<open>k\<close>
  (from 0) ends as \<open>outcomes k\<close> says.
\<close>

record callLog =
  calls :: nat
  delays :: "nat list"

definition scripted :: "(nat \<Rightarrow> errorObj + 'a) \<Rightarrow> callLog \<Rightarrow> (errorObj + 'a) \<times> callLog" where
  "scripted outcomes w = (outcomes (calls w), w\<lparr>calls := calls w + 1\<rparr>)"

definition sleep :: "nat \<Rightarrow> callLog \<Rightarrow> callLog" where
  "sleep ms w = w\<lparr>delays := delays w @ [ms]\<rparr>"

definition noCalls :: callLog where
  "noCalls = \<lparr>calls = 0, delays = []\<rparr>"

section \<open>ProxyManager: regions of a batch\<close>

text \<open>
  The manager's default region list and its round-robin cursor. A cursor computed modulo
  an empty list is \<^verbatim>\<open>NaN\<close> (\<open>None\<close>), and an array read at \<^verbatim>\<open>NaN\<close> or past the end is
  \<^verbatim>\<open>undefined\<close> (\<open>None\<close>).
\<close>

record ProxyManager =
  regions :: "string list"
  currentRegionIndex :: "nat option"

definition newProxyManager :: ProxyManager where
  "newProxyManager =
     \<lparr>regions = [''us-east-1'', ''us-east-2'', ''us-west-1'', ''ca-central-1''],
      currentRegionIndex = Some 0\<rparr>"

definition getNextRegion :: "ProxyManager \<Rightarrow> string option \<times> ProxyManager" where
  "getNextRegion pm =
     (case currentRegionIndex pm of
        None \<Rightarrow> (None, pm)
      | Some i \<Rightarrow>
          ((if i < length (regions pm) then Some (regions pm ! i) else None),
           pm\<lparr>currentRegionIndex :=
                 (if length (regions pm) = 0 then None
                  else Some ((i + 1) mod length (regions pm)))\<rparr>))"

text \<open>
  The head of \<^verbatim>\<open>createProxies(count, regions)\<close>: \<^verbatim>\<open>availableRegions = regions ||
  this.regions\<close> falls back to the default list only for \<^verbatim>\<open>null\<close> (\<open>None\<close>), since every
  array is truthy; then unit \<open>i\<close> gets \<^verbatim>\<open>availableRegions[i % availableRegions.length]\<close>.
  No statement of this part throws.
\<close>

definition regionFor :: "string list \<Rightarrow> nat \<Rightarrow> string option" where
  "regionFor availableRegions i =
     (if length availableRegions = 0 then None
      else Some (availableRegions ! (i mod length availableRegions)))"

definition targetRegions :: "ProxyManager \<Rightarrow> nat \<Rightarrow> string list option \<Rightarrow> string option list" where
  "targetRegions pm actualCount regionsArg =
     (let availableRegions = (case regionsArg of None \<Rightarrow> regions pm | Some rs \<Rightarrow> rs)
      in map (regionFor availableRegions) [0..<actualCount])"

section \<open>ProxyManager: creating shared resources concurrently\<close>

text \<open>
  \<^verbatim>\<open>createTaskDefinition(region)\<close> is an \<^verbatim>\<open>async\<close> function: between two \<^verbatim>\<open>await\<close>s
  its code runs without interruption, and at an \<^verbatim>\<open>await\<close> any other pending continuation
  may run. The state is the three fields it shares (\<^verbatim>\<open>taskDefinitionCache\<close>,
  \<^verbatim>\<open>taskDefinitionMutex\<close>, \<^verbatim>\<open>globalTaskDefinitionLock\<close>), the promises returned by
  \<^verbatim>\<open>createTaskDefinitionWithMutex\<close> (numbered in order of creation), the log of the
  creation calls made to the cloud (the region of each), and where each caller stands.

  A promise of \<^verbatim>\<open>createTaskDefinitionWithMutex\<close> first waits for its random delay, then for
  \<^verbatim>\<open>retryWithBackoff\<close> around \<^verbatim>\<open>createTaskDefinitionInternal\<close>, and settles with the ARN,
  which it has put into the cache, or with what \<^verbatim>\<open>retryWithBackoff\<close> threw. A caller is not
  yet called, suspended at one of the three \<^verbatim>\<open>await\<close>s of \<^verbatim>\<open>createTaskDefinition\<close>, or
  finished with a value or an exception.
\<close>

datatype creationState = Delaying | Registering | Fulfilled string | Rejected thrown

datatype callerPc =
    NotCalled
  | AwaitMutex nat
  | AwaitGlobalLock nat
  | AwaitCreation nat
  | Returned string
  | Threw thrown

record taskDefState =
  taskDefinitionCache :: "(string \<times> string) list"
  taskDefinitionMutex :: "(string \<times> nat) list"
  globalTaskDefinitionLock :: "nat option"
  creations :: "(string \<times> creationState) list"
  registerCalls :: "string list"
  callers :: "(string \<times> callerPc) list"

definition initialTaskDefState :: "string list \<Rightarrow> taskDefState" where
  "initialTaskDefState rs =
     \<lparr>taskDefinitionCache = [], taskDefinitionMutex = [], globalTaskDefinitionLock = None,
      creations = [], registerCalls = [], callers = map (\<lambda>r. (r, NotCalled)) rs\<rparr>"

text \<open>
  \<open>lockLoop\<close> is the code from the \<^verbatim>\<open>while (this.globalTaskDefinitionLock)\<close> loop on:
  suspend on the global lock if it is set; otherwise start the creation, store its promise
  as the region's mutex and as the global lock, and suspend on it. \<open>stepCaller\<close> runs
  caller \<open>i\<close> from where it stands to its next \<^verbatim>\<open>await\<close> or to its end; a caller suspended
  on a pending promise cannot run (\<open>None\<close>). An \<^verbatim>\<open>await\<close> on a rejected promise throws,
  and only the last \<^verbatim>\<open>await\<close> is inside \<^verbatim>\<open>try ... finally\<close>.
\<close>

definition settled :: "taskDefState \<Rightarrow> nat \<Rightarrow> (thrown + string) option" where
  "settled s p =
     (if p < length (creations s) then
        (case snd (creations s ! p) of
           Fulfilled a \<Rightarrow> Some (Inr a)
         | Rejected e \<Rightarrow> Some (Inl e)
         | _ \<Rightarrow> None)
      else None)"

definition setPc :: "nat \<Rightarrow> string \<Rightarrow> callerPc \<Rightarrow> taskDefState \<Rightarrow> taskDefState" where
  "setPc i r pc s = s\<lparr>callers := (callers s)[i := (r, pc)]\<rparr>"

definition lockLoop :: "nat \<Rightarrow> string \<Rightarrow> taskDefState \<Rightarrow> taskDefState" where
  "lockLoop i r s =
     (case globalTaskDefinitionLock s of
        Some p \<Rightarrow> setPc i r (AwaitGlobalLock p) s
      | None \<Rightarrow>
          (let creationPromise = length (creations s)
           in setPc i r (AwaitCreation creationPromise)
                (s\<lparr>creations := creations s @ [(r, Delaying)],
                   taskDefinitionMutex := AList.update r creationPromise (taskDefinitionMutex s),
                   globalTaskDefinitionLock := Some creationPromise\<rparr>)))"

definition checkCacheThen :: "nat \<Rightarrow> string \<Rightarrow> (taskDefState \<Rightarrow> taskDefState) \<Rightarrow> taskDefState \<Rightarrow> taskDefState" where
  "checkCacheThen i r otherwise s =
     (case map_of (taskDefinitionCache s) r of
        Some a \<Rightarrow> setPc i r (Returned a) s
      | None \<Rightarrow> otherwise s)"

definition stepCaller :: "nat \<Rightarrow> taskDefState \<Rightarrow> taskDefState option" where
  "stepCaller i s =
     (if i < length (callers s) then
        (case callers s ! i of
           (r, NotCalled) \<Rightarrow>
             Some (checkCacheThen i r
                     (\<lambda>s. case map_of (taskDefinitionMutex s) r of
                             Some p \<Rightarrow> setPc i r (AwaitMutex p) s
                           | None \<Rightarrow> lockLoop i r s) s)
         | (r, AwaitMutex p) \<Rightarrow>
             (case settled s p of
                None \<Rightarrow> None
              | Some (Inl e) \<Rightarrow> Some (setPc i r (Threw e) s)
              | Some (Inr a) \<Rightarrow> Some (checkCacheThen i r (lockLoop i r) s))
         | (r, AwaitGlobalLock p) \<Rightarrow>
             (case settled s p of
                None \<Rightarrow> None
              | Some (Inl e) \<Rightarrow> Some (setPc i r (Threw e) s)
              | Some (Inr a) \<Rightarrow> Some (lockLoop i r s))
         | (r, AwaitCreation p) \<Rightarrow>
             (case settled s p of
                None \<Rightarrow> None
              | Some res \<Rightarrow>
                  Some (setPc i r (case res of Inr a \<Rightarrow> Returned a | Inl e \<Rightarrow> Threw e)
                          (s\<lparr>taskDefinitionMutex := AList.delete r (taskDefinitionMutex s),
                             globalTaskDefinitionLock :=
                               (if globalTaskDefinitionLock s = Some p then None
                                else globalTaskDefinitionLock s)\<rparr>)))
         | (r, Returned a) \<Rightarrow> None
         | (r, Threw e) \<Rightarrow> None)
      else None)"

text \<open>
  \<open>stepCreation\<close> lets creation \<open>p\<close> advance: its delay ends, or its
  \<^verbatim>\<open>retryWithBackoff\<close> ends. \<open>cloud p k\<close> is how invocation \<open>k\<close> of
  \<^verbatim>\<open>createTaskDefinitionInternal\<close> within creation \<open>p\<close> ends; every invocation is one
  \<^verbatim>\<open>RegisterTaskDefinition\<close> call, and the calls of a creation enter the log when it settles.
  Nothing else reads or writes the shared fields while \<^verbatim>\<open>retryWithBackoff\<close> is under way.
\<close>

definition stepCreation ::
  "(nat \<Rightarrow> nat \<Rightarrow> errorObj + string) \<Rightarrow> nat \<Rightarrow> taskDefState \<Rightarrow> taskDefState option" where
  "stepCreation cloud p s =
     (if p < length (creations s) then
        (case creations s ! p of
           (r, Delaying) \<Rightarrow> Some (s\<lparr>creations := (creations s)[p := (r, Registering)]\<rparr>)
         | (r, Registering) \<Rightarrow>
             (case retryWithBackoff defaultRetryConfig (scripted (cloud p)) sleep noCalls of
                (Inr a, w) \<Rightarrow>
                  Some (s\<lparr>creations := (creations s)[p := (r, Fulfilled a)],
                          registerCalls := registerCalls s @ replicate (calls w) r,
                          taskDefinitionCache := AList.update r a (taskDefinitionCache s)\<rparr>)
              | (Inl e, w) \<Rightarrow>
                  Some (s\<lparr>creations := (creations s)[p := (r, Rejected e)],
                          registerCalls := registerCalls s @ replicate (calls w) r\<rparr>))
         | (r, Fulfilled a) \<Rightarrow> None
         | (r, Rejected e) \<Rightarrow> None)
      else None)"

text \<open>
  A schedule is a list of actions, each letting one caller or one creation advance;
  \<open>run\<close> is \<open>None\<close> when the schedule asks for a step that cannot be taken.
\<close>

datatype action = Caller nat | Creation nat

fun step :: "(nat \<Rightarrow> nat \<Rightarrow> errorObj + string) \<Rightarrow> action \<Rightarrow> taskDefState \<Rightarrow> taskDefState option" where
  "step cloud (Caller i) s = stepCaller i s"
| "step cloud (Creation p) s = stepCreation cloud p s"

fun run :: "(nat \<Rightarrow> nat \<Rightarrow> errorObj + string) \<Rightarrow> action list \<Rightarrow> taskDefState \<Rightarrow> taskDefState option" where
  "run cloud [] s = Some s"
| "run cloud (a # as) s = (case step cloud a s of None \<Rightarrow> None | Some s' \<Rightarrow> run cloud as s')"

definition finished :: "callerPc \<Rightarrow> bool" where
  "finished pc = (case pc of Returned a \<Rightarrow> True | Threw e \<Rightarrow> True | _ \<Rightarrow> False)"

text \<open>
  The four stages that callers of one region \<open>r\<close> go through when nobody else calls and
  the creation succeeds with \<open>a\<close> after \<open>m\<close> calls to the cloud: nobody called yet; one
  caller holds the mutex and the creation is pending; the creation is done and the holder
  not yet resumed; the holder has cleaned up.
\<close>

definition invA :: "string \<Rightarrow> taskDefState \<Rightarrow> bool" where
  "invA r s =
     (taskDefinitionCache s = [] \<and> taskDefinitionMutex s = [] \<and> globalTaskDefinitionLock s = None
      \<and> creations s = [] \<and> registerCalls s = []
      \<and> (\<forall>j<length (callers s). callers s ! j = (r, NotCalled)))"

definition invB :: "string \<Rightarrow> taskDefState \<Rightarrow> bool" where
  "invB r s =
     (taskDefinitionCache s = [] \<and> taskDefinitionMutex s = [(r, 0)]
      \<and> globalTaskDefinitionLock s = Some 0
      \<and> (creations s = [(r, Delaying)] \<or> creations s = [(r, Registering)])
      \<and> registerCalls s = []
      \<and> (\<exists>i<length (callers s). callers s ! i = (r, AwaitCreation 0)
             \<and> (\<forall>j<length (callers s). j \<noteq> i \<longrightarrow>
                    callers s ! j = (r, NotCalled) \<or> callers s ! j = (r, AwaitMutex 0))))"

definition invC :: "string \<Rightarrow> string \<Rightarrow> nat \<Rightarrow> taskDefState \<Rightarrow> bool" where
  "invC r a m s =
     (taskDefinitionCache s = [(r, a)] \<and> taskDefinitionMutex s = [(r, 0)]
      \<and> globalTaskDefinitionLock s = Some 0
      \<and> creations s = [(r, Fulfilled a)] \<and> registerCalls s = replicate m r
      \<and> (\<exists>i<length (callers s). callers s ! i = (r, AwaitCreation 0)
             \<and> (\<forall>j<length (callers s). j \<noteq> i \<longrightarrow>
                    callers s ! j = (r, NotCalled) \<or> callers s ! j = (r, AwaitMutex 0)
                    \<or> callers s ! j = (r, Returned a))))"

definition invD :: "string \<Rightarrow> string \<Rightarrow> nat \<Rightarrow> taskDefState \<Rightarrow> bool" where
  "invD r a m s =
     (taskDefinitionCache s = [(r, a)] \<and> taskDefinitionMutex s = []
      \<and> globalTaskDefinitionLock s = None
      \<and> creations s = [(r, Fulfilled a)] \<and> registerCalls s = replicate m r
      \<and> (\<forall>j<length (callers s). callers s ! j = (r, NotCalled)
             \<or> callers s ! j = (r, AwaitMutex 0) \<or> callers s ! j = (r, Returned a)))"

definition sameRegionInv :: "string \<Rightarrow> string \<Rightarrow> nat \<Rightarrow> taskDefState \<Rightarrow> bool" where
  "sameRegionInv r a m s = (invA r s \<or> invB r s \<or> invC r a m s \<or> invD r a m s)"

text \<open>
  \<^verbatim>\<open>ensureSecurityGroup(region)\<close> in the same style. It shares only
  \<^verbatim>\<open>securityGroupCache\<close>; the cloud holds at most one group of the well-known name per
  region. Every cloud call is taken to succeed, except \<^verbatim>\<open>CreateSecurityGroup\<close> for a name that
  exists: \<^verbatim>\<open>createNewSecurityGroup\<close> catches that error and returns the existing group.
  \<open>createCalls\<close> logs the \<^verbatim>\<open>CreateSecurityGroup\<close> requests sent.
\<close>

datatype ensurePc =
    EnsureNotCalled
  | AwaitFindExisting
  | AwaitUpdateRules string
  | AwaitCreateNew
  | EnsureReturned string

record secGroupState =
  securityGroupCache :: "(string \<times> string) list"
  cloudGroups :: "(string \<times> string) list"
  createCalls :: "string list"
  ensureCallers :: "(string \<times> ensurePc) list"

definition initialSecGroupState :: "string list \<Rightarrow> secGroupState" where
  "initialSecGroupState rs =
     \<lparr>securityGroupCache = [], cloudGroups = [], createCalls = [],
      ensureCallers = map (\<lambda>r. (r, EnsureNotCalled)) rs\<rparr>"

definition newGroupId :: "nat \<Rightarrow> string" where
  "newGroupId k = ''sg-'' @ showNat k"

definition stepEnsure :: "nat \<Rightarrow> secGroupState \<Rightarrow> secGroupState option" where
  "stepEnsure i s =
     (if i < length (ensureCallers s) then
        (case ensureCallers s ! i of
           (r, EnsureNotCalled) \<Rightarrow>
             Some (s\<lparr>ensureCallers := (ensureCallers s)
                       [i := (r, case map_of (securityGroupCache s) r of
                                   Some g \<Rightarrow> EnsureReturned g
                                 | None \<Rightarrow> AwaitFindExisting)]\<rparr>)
         | (r, AwaitFindExisting) \<Rightarrow>
             Some (s\<lparr>ensureCallers := (ensureCallers s)
                       [i := (r, case map_of (cloudGroups s) r of
                                   Some existingGroupId \<Rightarrow> AwaitUpdateRules existingGroupId
                                 | None \<Rightarrow> AwaitCreateNew)]\<rparr>)
         | (r, AwaitUpdateRules existingGroupId) \<Rightarrow>
             Some (s\<lparr>securityGroupCache := AList.update r existingGroupId (securityGroupCache s),
                     ensureCallers := (ensureCallers s)[i := (r, EnsureReturned existingGroupId)]\<rparr>)
         | (r, AwaitCreateNew) \<Rightarrow>
             (let securityGroupId =
                    (case map_of (cloudGroups s) r of
                       Some existingGroupId \<Rightarrow> existingGroupId
                     | None \<Rightarrow> newGroupId (length (createCalls s)))
              in Some (s\<lparr>createCalls := createCalls s @ [r],
                        cloudGroups := AList.update r securityGroupId (cloudGroups s),
                        securityGroupCache := AList.update r securityGroupId (securityGroupCache s),
                        ensureCallers := (ensureCallers s)[i := (r, EnsureReturned securityGroupId)]\<rparr>))
         | (r, EnsureReturned g) \<Rightarrow> None)
      else None)"

fun runEnsure :: "nat list \<Rightarrow> secGroupState \<Rightarrow> secGroupState option" where
  "runEnsure [] s = Some s"
| "runEnsure (i # sched) s = (case stepEnsure i s of None \<Rightarrow> None | Some s' \<Rightarrow> runEnsure sched s')"

section \<open>Concrete states used as examples\<close>

text \<open>
  Three states built with the operations above: a tier-1 record exactly ten steps ahead of
  the cursor, alone (\<open>loneTierOne\<close>) and behind an older tier-1 record
  (\<open>twoTierOnes\<close>); and a tier-2 record promoted before a tier-1 record (\<open>mixedTiers\<close>).
\<close>

definition loneTierOne :: PriorityQueue where
  "loneTierOne = setPriority ''u10'' 1 0
           (initialize [''u00'', ''u01'', ''u02'', ''u03'', ''u04'', ''u05'', ''u06'', ''u07'',
                        ''u08'', ''u09'', ''u10''] newPriorityQueue)"

definition twoTierOnes :: PriorityQueue where
  "twoTierOnes = setPriority ''u10'' 1 5 (setPriority ''u03'' 1 0
           (initialize [''u00'', ''u01'', ''u02'', ''u03'', ''u04'', ''u05'', ''u06'', ''u07'',
                        ''u08'', ''u09'', ''u10''] newPriorityQueue))"

definition mixedTiers :: PriorityQueue where
  "mixedTiers =
     setPriority ''b'' 2 7 (setPriority ''c'' 1 9 (initialize [''a'', ''b'', ''c''] newPriorityQueue))"

text \<open>
  A response with two boxes for group 7, a bot with a web server and nothing in memory, the
  bot after it processed that response once for the url \<open>u\<close>, and the entry it stored.
\<close>

definition sampleResponse :: apiData where
  "sampleResponse =
     \<lparr>spu_ext_id = 7,
      box_list = [\<lparr>position = 1, state = 1, box_no = None\<rparr>,
                  \<lparr>position = 3, state = 12, box_no = Some ''B7''\<rparr>]\<rparr>"

definition freshBot :: StockBot where
  "freshBot =
     \<lparr>priorityQueue = initialize [''u''] newPriorityQueue, stockData = Map.empty,
      webServer = True, tsvFiles = Map.empty, broadcasts = []\<rparr>"

definition botAfterFirst :: StockBot where
  "botAfterFirst =
     processStockData (Some sampleResponse) ''u'' 5 ''2024-01-01T00:00:00.000Z'' [] freshBot"

definition storedEntry :: stockEntry where
  "storedEntry = \<lparr>url = Some ''u'', state0 = Some ''1'', state1 = Some [], state2 = Some ''12'',
          state3 = Some [], state4 = Some [], state5 = Some [], stock = Some ''true'',
          lastChecked = Some ''2024-01-01T00:00:00.000Z''\<rparr>"

text \<open>
  Two errors, one with a throttling signature and one without, and two scripts for the
  operation: transient failures on the first four invocations and success on the fifth;
  transient failures on the first two invocations and a permanent one on the third.
\<close>

definition throttled :: errorObj where
  "throttled = \<lparr>message = Some ''Rate exceeded'', code = Some ''ThrottlingException''\<rparr>"

definition denied :: errorObj where
  "denied = \<lparr>message = Some ''User is not authorized'', code = Some ''AccessDenied''\<rparr>"

definition succeedsOnFifth :: "nat \<Rightarrow> errorObj + nat" where
  "succeedsOnFifth k = (if k < 4 then Inl throttled else Inr 7)"

definition deniedOnThird :: "nat \<Rightarrow> errorObj + nat" where
  "deniedOnThird k = (if k < 2 then Inl throttled else Inl denied)"

text \<open>A cloud in which every creation succeeds at its first call, with an ARN of its own.\<close>

definition firstTrySucceeds :: "nat \<Rightarrow> nat \<Rightarrow> errorObj + string" where
  "firstTrySucceeds p k = Inr (''arn:td:'' @ showNat p)"

section \<open>Properties of the priority queue\<close>

lemma compareFn_le_iff: "compareFn a b \<le> 0 \<longleftrightarrow> keyLe (snd a) (snd b)"
  by (auto simp: compareFn_def keyLe_def)

lemma keyLe_refl: "keyLe a a"
  by (simp add: keyLe_def)

lemma keyLe_trans: "keyLe a b \<Longrightarrow> keyLe b c \<Longrightarrow> keyLe a c"
  by (auto simp: keyLe_def)

lemma keyLe_linear: "keyLe a b \<or> keyLe b a"
  by (auto simp: keyLe_def)

lemma set_insertSorted: "set (insertSorted x xs) = insert x (set xs)"
  by (induction xs) auto

lemma sorted_insertSorted:
  "sorted_wrt (\<lambda>a b. keyLe (snd a) (snd b)) xs \<Longrightarrow>
   sorted_wrt (\<lambda>a b. keyLe (snd a) (snd b)) (insertSorted x xs)"
proof (induction xs)
  case Nil
  then show ?case by simp
next
  case (Cons y ys)
  show ?case
  proof (cases "compareFn x y \<le> 0")
    case True
    then have "keyLe (snd x) (snd y)" by (simp add: compareFn_le_iff)
    with Cons.prems True show ?thesis
      by (auto intro: keyLe_trans)
  next
    case False
    then have "keyLe (snd y) (snd x)"
      using keyLe_linear [of "snd x" "snd y"] by (simp add: compareFn_le_iff)
    with Cons False show ?thesis
      by (auto simp: set_insertSorted)
  qed
qed

lemma set_stableSort: "set (stableSort xs) = set xs"
  unfolding stableSort_def by (induction xs) (auto simp: set_insertSorted)

lemma sorted_stableSort: "sorted_wrt (\<lambda>a b. keyLe (snd a) (snd b)) (stableSort xs)"
  unfolding stableSort_def by (induction xs) (auto intro: sorted_insertSorted)

lemma find_sorted_least:
  "sorted_wrt R xs \<Longrightarrow> find P xs = Some z \<Longrightarrow> x \<in> set xs \<Longrightarrow> P x \<Longrightarrow> z = x \<or> R z x"
  by (induction xs) (auto split: if_splits)

lemma find_Some_set: "find P xs = Some z \<Longrightarrow> z \<in> set xs \<and> P z"
  by (induction xs) (auto split: if_splits)

lemma set_readyPriorityUrls:
  "set (readyPriorityUrls now q) = {(u, info) \<in> set (priorityMap q). now - lastCheckOf q u \<ge> priorityCheckInterval q}"
  by (auto simp: readyPriorityUrls_def)

lemma getNextPriorityUrl_find:
  "getNextPriorityUrl now q =
     (case find (\<lambda>(u, info). canCutInLine q u (priority info)) (stableSort (readyPriorityUrls now q)) of
        Some (u, info) \<Rightarrow> (Some u, q\<lparr>lastPriorityCheck := (lastPriorityCheck q)(u \<mapsto> now)\<rparr>)
      | None \<Rightarrow> (None, q))"
proof (cases "readyPriorityUrls now q")
  case Nil
  then show ?thesis by (simp add: getNextPriorityUrl_def stableSort_def)
next
  case (Cons a as)
  then show ?thesis by (simp add: getNextPriorityUrl_def Let_def)
qed

lemma getNextPriorityUrl_Some:
  assumes "getNextPriorityUrl now q = (Some u, q')"
  shows "\<exists>info. (u, info) \<in> set (priorityMap q)
           \<and> now - lastCheckOf q u \<ge> priorityCheckInterval q
           \<and> canCutInLine q u (priority info)
           \<and> (\<forall>(v, j) \<in> set (priorityMap q).
                 now - lastCheckOf q v \<ge> priorityCheckInterval q \<and> canCutInLine q v (priority j)
                 \<longrightarrow> keyLe info j)
           \<and> q' = q\<lparr>lastPriorityCheck := (lastPriorityCheck q)(u \<mapsto> now)\<rparr>"
proof -
  let ?P = "\<lambda>(u, info). canCutInLine q u (priority info)"
  let ?xs = "stableSort (readyPriorityUrls now q)"
  from assms obtain info where f: "find ?P ?xs = Some (u, info)"
    and q': "q' = q\<lparr>lastPriorityCheck := (lastPriorityCheck q)(u \<mapsto> now)\<rparr>"
    by (auto simp: getNextPriorityUrl_find split: option.splits)
  from find_Some_set [OF f] have mem: "(u, info) \<in> set (readyPriorityUrls now q)"
    and cut: "canCutInLine q u (priority info)"
    by (auto simp: set_stableSort)
  have least: "keyLe info j"
    if "(v, j) \<in> set (priorityMap q)" "now - lastCheckOf q v \<ge> priorityCheckInterval q"
       "canCutInLine q v (priority j)" for v j
  proof -
    from that have "(v, j) \<in> set ?xs" by (simp add: set_stableSort set_readyPriorityUrls)
    from find_sorted_least [OF sorted_stableSort f this] that(3)
    show ?thesis by (auto intro: keyLe_refl)
  qed
  from mem cut least q' show ?thesis
    by (auto simp: set_readyPriorityUrls)
qed

lemma getNextPriorityUrl_None:
  assumes "getNextPriorityUrl now q = (None, q')"
  shows "q' = q \<and> (\<forall>(v, j) \<in> set (priorityMap q).
            \<not> (now - lastCheckOf q v \<ge> priorityCheckInterval q \<and> canCutInLine q v (priority j)))"
proof -
  let ?P = "\<lambda>(u, info). canCutInLine q u (priority info)"
  let ?xs = "stableSort (readyPriorityUrls now q)"
  from assms have f: "find ?P ?xs = None" and q': "q' = q"
    by (auto simp: getNextPriorityUrl_find split: option.splits)
  from f have "\<forall>x \<in> set ?xs. \<not> ?P x" by (auto simp: find_None_iff)
  then show ?thesis using q'
    by (auto simp: set_stableSort set_readyPriorityUrls)
qed

lemma indexOf_Some: "indexOf xs x = Some i \<Longrightarrow> i < length xs \<and> xs ! i = x"
  by (induction xs arbitrary: i) (auto split: if_splits)

lemma indexOf_None: "indexOf xs x = None \<longleftrightarrow> x \<notin> set xs"
  by (induction xs) auto

lemma cutDistance_forwardSteps:
  assumes "currentIndex q < length (urls q)" and "idx < length (urls q)"
  shows "cutDistance q idx = forwardSteps q idx"
proof (cases "idx \<ge> currentIndex q")
  case True
  with assms have "0 \<le> int idx - int (currentIndex q)"
    and "int idx - int (currentIndex q) < int (length (urls q))" by auto
  then show ?thesis using True by (simp add: cutDistance_def forwardSteps_def)
next
  case False
  with assms have "0 \<le> int (length (urls q)) - int (currentIndex q) + int idx"
    and "int (length (urls q)) - int (currentIndex q) + int idx < int (length (urls q))" by auto
  then have "(int (length (urls q)) - int (currentIndex q) + int idx) mod int (length (urls q))
      = int (length (urls q)) - int (currentIndex q) + int idx" by simp
  moreover have "(int (length (urls q)) - int (currentIndex q) + int idx) mod int (length (urls q))
      = (int idx - int (currentIndex q)) mod int (length (urls q))"
    by (metis add.commute add_diff_eq mod_add_self2)
  ultimately show ?thesis using False by (simp add: cutDistance_def forwardSteps_def)
qed

lemma setPriority_frame:
  "urls (setPriority u p now q) = urls q \<and> currentIndex (setPriority u p now q) = currentIndex q
   \<and> maxLineCuts (setPriority u p now q) = maxLineCuts q
   \<and> priorityCheckInterval (setPriority u p now q) = priorityCheckInterval q"
  by (simp add: setPriority_def split: option.splits)

lemma setPriority_distinct:
  "distinct (map fst (priorityMap q)) \<Longrightarrow> distinct (map fst (priorityMap (setPriority u p now q)))"
  by (simp add: setPriority_def distinct_update distinct_delete split: option.splits)

lemma getNextPriorityUrl_frame:
  "getNextPriorityUrl now q = (r, q') \<Longrightarrow>
     urls q' = urls q \<and> currentIndex q' = currentIndex q \<and> priorityMap q' = priorityMap q
     \<and> maxLineCuts q' = maxLineCuts q \<and> priorityCheckInterval q' = priorityCheckInterval q"
  by (auto simp: getNextPriorityUrl_find split: option.splits)

lemma getNextUrl_frame:
  "getNextUrl now q = (r, q') \<Longrightarrow>
     urls q' = urls q \<and> priorityMap q' = priorityMap q
     \<and> maxLineCuts q' = maxLineCuts q \<and> priorityCheckInterval q' = priorityCheckInterval q"
  by (auto simp: getNextUrl_def nextRegularUrl_def split: if_splits option.splits prod.splits
           dest: getNextPriorityUrl_frame)

lemma getNextUrl_cursor:
  "getNextUrl now q = (r, q') \<Longrightarrow> urls q = [] \<or> currentIndex q < length (urls q) \<Longrightarrow>
     urls q' = [] \<or> currentIndex q' < length (urls q')"
  by (auto simp: getNextUrl_def nextRegularUrl_def split: if_splits option.splits prod.splits
           dest: getNextPriorityUrl_frame)

lemma reachable_invariant:
  "reachable q \<Longrightarrow>
     distinct (map fst (priorityMap q)) \<and> maxLineCuts q = 5 \<and> priorityCheckInterval q = 30000
     \<and> (urls q = [] \<or> currentIndex q < length (urls q))"
proof (induction rule: reachable.induct)
  case (reachable_initialize us)
  show ?case by (cases us) (simp_all add: initialize_def newPriorityQueue_def)
next
  case (reachable_setPriority q u p now)
  then show ?case by (simp add: setPriority_frame setPriority_distinct)
next
  case (reachable_getNextUrl q now)
  obtain r q' where g: "getNextUrl now q = (r, q')" by (cases "getNextUrl now q")
  from getNextUrl_frame [OF g] getNextUrl_cursor [OF g] reachable_getNextUrl.IH g
  show ?case by simp
qed

lemma ready_iff_throttleElapsed:
  "priorityCheckInterval q = 30000 \<Longrightarrow> 30000 \<le> now \<Longrightarrow>
     (now - lastCheckOf q u \<ge> priorityCheckInterval q) = throttleElapsed now q u"
  by (simp add: lastCheckOf_def throttleElapsed_def split: option.splits)

lemma map_of_mem: "distinct (map fst al) \<Longrightarrow> (map_of al k = Some v) = ((k, v) \<in> set al)"
  by simp

lemmas queue_eval =
  getNextPriorityUrl_def setPriority_def initialize_def newPriorityQueue_def
  readyPriorityUrls_def lastCheckOf_def stableSort_def compareFn_def canCutInLine_def
  cutDistance_def maxCutsForPriority_def forwardSteps_def throttleElapsed_def
  getNextUrl_def nextRegularUrl_def

text \<open>
  Claim C3. In every state reachable by \<^verbatim>\<open>setPriority\<close> (and \<^verbatim>\<open>getNextUrl\<close>) calls, at
  any clock value of at least 30 seconds, what \<^verbatim>\<open>getNextPriorityUrl\<close> returns is a record
  whose throttle has elapsed (last check at least 30 seconds ago, or never checked) and that
  can cut in line, and it is least in the order "tier ascending, older promotion first"
  among all such records; it returns nothing only when there is no such record. Hence,
  whenever some tier-1 record passes both checks, a record is returned and its tier is not
  2 or 3 (it is at most 1).
\<close>

theorem tier_one_never_skipped:
  assumes "reachable q" and "30000 \<le> now" and "getNextPriorityUrl now q = (r, q')"
  shows "(case r of
            Some u \<Rightarrow>
              (\<exists>info. map_of (priorityMap q) u = Some info \<and> throttleElapsed now q u
                 \<and> canCutInLine q u (priority info)
                 \<and> (\<forall>v j. map_of (priorityMap q) v = Some j \<and> throttleElapsed now q v
                            \<and> canCutInLine q v (priority j) \<longrightarrow> keyLe info j))
          | None \<Rightarrow>
              (\<forall>v j. map_of (priorityMap q) v = Some j \<longrightarrow>
                 \<not> (throttleElapsed now q v \<and> canCutInLine q v (priority j))))
         \<and> (\<forall>v j. map_of (priorityMap q) v = Some j \<and> priority j = 1 \<and> throttleElapsed now q v
                    \<and> canCutInLine q v 1 \<longrightarrow>
               (\<exists>u info. r = Some u \<and> map_of (priorityMap q) u = Some info
                  \<and> priority info \<le> 1 \<and> priority info \<noteq> 2 \<and> priority info \<noteq> 3))"
proof -
  from reachable_invariant [OF assms(1)]
  have dist: "distinct (map fst (priorityMap q))" and iv: "priorityCheckInterval q = 30000"
    by simp_all
  note rdy = ready_iff_throttleElapsed [OF iv assms(2)]
  have first: "(case r of
            Some u \<Rightarrow>
              (\<exists>info. map_of (priorityMap q) u = Some info \<and> throttleElapsed now q u
                 \<and> canCutInLine q u (priority info)
                 \<and> (\<forall>v j. map_of (priorityMap q) v = Some j \<and> throttleElapsed now q v
                            \<and> canCutInLine q v (priority j) \<longrightarrow> keyLe info j))
          | None \<Rightarrow>
              (\<forall>v j. map_of (priorityMap q) v = Some j \<longrightarrow>
                 \<not> (throttleElapsed now q v \<and> canCutInLine q v (priority j))))"
  proof (cases r)
    case None
    with assms(3) getNextPriorityUrl_None [of now q q'] show ?thesis
      by (auto simp: rdy map_of_mem [OF dist])
  next
    case (Some u)
    with assms(3) getNextPriorityUrl_Some [of now q u q'] show ?thesis
      by (fastforce simp: rdy map_of_mem [OF dist])
  qed
  have second: "\<exists>u info. r = Some u \<and> map_of (priorityMap q) u = Some info
                  \<and> priority info \<le> 1 \<and> priority info \<noteq> 2 \<and> priority info \<noteq> 3"
    if h: "map_of (priorityMap q) v = Some j \<and> priority j = 1 \<and> throttleElapsed now q v
           \<and> canCutInLine q v 1" for v j
  proof -
    from h have m: "map_of (priorityMap q) v = Some j" and el: "throttleElapsed now q v"
      and cut: "canCutInLine q v (priority j)" and one: "priority j = 1"
      by simp_all
    show ?thesis
    proof (cases r)
      case None
      with first have "\<forall>v j. map_of (priorityMap q) v = Some j \<longrightarrow>
                 \<not> (throttleElapsed now q v \<and> canCutInLine q v (priority j))"
        by simp
      with m el cut show ?thesis by blast
    next
      case (Some u)
      with first obtain info where i: "map_of (priorityMap q) u = Some info"
        and le: "\<forall>v j. map_of (priorityMap q) v = Some j \<and> throttleElapsed now q v
                              \<and> canCutInLine q v (priority j) \<longrightarrow> keyLe info j"
        by auto
      from le m el cut have "keyLe info j" by blast
      with one have "priority info \<le> 1" by (auto simp: keyLe_def)
      with Some i show ?thesis by auto
    qed
  qed
  from first second show ?thesis by blast
qed

lemma canCutInLine_bound:
  assumes "maxLineCuts q = 5" and "currentIndex q < length (urls q)"
    and "canCutInLine q u p"
  shows "\<exists>idx. indexOf (urls q) u = Some idx
           \<and> forwardSteps q idx \<le> (if p = 1 then 10 else if p = 2 then 5 else if p = 3 then 2 else 0)"
proof -
  from assms(3) obtain idx where i: "indexOf (urls q) u = Some idx"
    and c: "cutDistance q idx \<le> maxCutsForPriority q p"
    by (auto simp: canCutInLine_def split: option.splits)
  from indexOf_Some [OF i] have "idx < length (urls q)" by simp
  from cutDistance_forwardSteps [OF assms(2) this] c assms(1) i show ?thesis
    by (auto simp: maxCutsForPriority_def)
qed

lemma find_first_unique:
  assumes "sorted_wrt R xs" and "x \<in> set xs" and "P x"
    and "\<forall>y \<in> set xs. y \<noteq> x \<and> P y \<longrightarrow> \<not> R y x"
  shows "find P xs = Some x"
proof (cases "find P xs")
  case None
  with assms(2,3) show ?thesis by (auto simp: find_None_iff)
next
  case (Some z)
  from find_Some_set [OF Some] have z: "z \<in> set xs" "P z" by simp_all
  from find_sorted_least [OF assms(1) Some assms(2,3)] have "z = x \<or> R z x" .
  with z assms(4) Some show ?thesis by auto
qed

theorem tier_one_never_skipped_witness:
  "reachable mixedTiers \<and> (30000::int) \<le> 30000
   \<and> map_of (priorityMap mixedTiers) ''c'' = Some \<lparr>priority = 1, addedAt = 9\<rparr>
   \<and> map_of (priorityMap mixedTiers) ''b'' = Some \<lparr>priority = 2, addedAt = 7\<rparr>
   \<and> throttleElapsed 30000 mixedTiers ''c'' \<and> throttleElapsed 30000 mixedTiers ''b''
   \<and> canCutInLine mixedTiers ''c'' 1 \<and> canCutInLine mixedTiers ''b'' 2
   \<and> fst (getNextPriorityUrl 30000 mixedTiers) = Some ''c''
   \<and> (\<exists>u info. fst (getNextPriorityUrl 30000 mixedTiers) = Some u
         \<and> map_of (priorityMap mixedTiers) u = Some info \<and> priority info \<le> 1)"
proof -
  have reach: "reachable mixedTiers"
    unfolding mixedTiers_def by (intro reachable.intros)
  have facts: "map_of (priorityMap mixedTiers) ''c'' = Some \<lparr>priority = 1, addedAt = 9\<rparr>"
    "map_of (priorityMap mixedTiers) ''b'' = Some \<lparr>priority = 2, addedAt = 7\<rparr>"
    "throttleElapsed 30000 mixedTiers ''c''" "throttleElapsed 30000 mixedTiers ''b''"
    "canCutInLine mixedTiers ''c'' 1" "canCutInLine mixedTiers ''b'' 2"
    "fst (getNextPriorityUrl 30000 mixedTiers) = Some ''c''"
    by (simp_all add: mixedTiers_def queue_eval)
  obtain r q' where g: "getNextPriorityUrl 30000 mixedTiers = (r, q')"
    by (cases "getNextPriorityUrl 30000 mixedTiers")
  have now: "(30000::int) \<le> 30000" by simp
  from tier_one_never_skipped [OF reach now g, THEN conjunct2, rule_format,
      of "''c''" "\<lparr>priority = 1, addedAt = 9\<rparr>"] facts
  have "\<exists>u info. r = Some u \<and> map_of (priorityMap mixedTiers) u = Some info
          \<and> priority info \<le> 1 \<and> priority info \<noteq> 2 \<and> priority info \<noteq> 3"
    by simp
  with g have "\<exists>u info. fst (getNextPriorityUrl 30000 mixedTiers) = Some u
         \<and> map_of (priorityMap mixedTiers) u = Some info \<and> priority info \<le> 1"
    by auto
  with reach facts show ?thesis by simp
qed

text \<open>
  Claim C1, as amended. With \<^verbatim>\<open>maxLineCuts = 5\<close>, the url that \<^verbatim>\<open>getNextPriorityUrl\<close>
  returns has a record, and its first position in the rotation is at most 10 (tier 1),
  5 (tier 2), 2 (tier 3) or 0 (any other priority) circular forward steps from the cursor.
  A tier-1 record exactly 10 steps ahead whose throttle has elapsed is the one returned,
  provided no other record that is ready and can cut in line comes before it, or ties with
  it, in the candidate order.
\<close>

theorem line_cutting_bound:
  assumes "maxLineCuts q = 5" and "priorityCheckInterval q = 30000"
    and "currentIndex q < length (urls q)" and "30000 \<le> now"
  shows "(getNextPriorityUrl now q = (Some u, q') \<longrightarrow>
            (\<exists>info idx. (u, info) \<in> set (priorityMap q) \<and> indexOf (urls q) u = Some idx
               \<and> forwardSteps q idx \<le>
                   (if priority info = 1 then 10 else if priority info = 2 then 5
                    else if priority info = 3 then 2 else 0)))
       \<and> ((v, j) \<in> set (priorityMap q) \<and> priority j = 1
            \<and> indexOf (urls q) v = Some k \<and> forwardSteps q k = 10
            \<and> throttleElapsed now q v
            \<and> (\<forall>(w, i) \<in> set (priorityMap q).
                  (w, i) \<noteq> (v, j) \<and> throttleElapsed now q w \<and> canCutInLine q w (priority i)
                  \<longrightarrow> \<not> keyLe i j)
          \<longrightarrow> fst (getNextPriorityUrl now q) = Some v)"
proof (intro conjI impI)
  assume "getNextPriorityUrl now q = (Some u, q')"
  from getNextPriorityUrl_Some [OF this] obtain info where
    m: "(u, info) \<in> set (priorityMap q)" and c: "canCutInLine q u (priority info)" by blast
  from canCutInLine_bound [OF assms(1,3) c] m
  show "\<exists>info idx. (u, info) \<in> set (priorityMap q) \<and> indexOf (urls q) u = Some idx
               \<and> forwardSteps q idx \<le>
                   (if priority info = 1 then 10 else if priority info = 2 then 5
                    else if priority info = 3 then 2 else 0)"
    by blast
next
  note rdy = ready_iff_throttleElapsed [OF assms(2,4)]
  let ?P = "\<lambda>(u, info). canCutInLine q u (priority info)"
  let ?xs = "stableSort (readyPriorityUrls now q)"
  assume h: "(v, j) \<in> set (priorityMap q) \<and> priority j = 1
            \<and> indexOf (urls q) v = Some k \<and> forwardSteps q k = 10
            \<and> throttleElapsed now q v
            \<and> (\<forall>(w, i) \<in> set (priorityMap q).
                  (w, i) \<noteq> (v, j) \<and> throttleElapsed now q w \<and> canCutInLine q w (priority i)
                  \<longrightarrow> \<not> keyLe i j)"
  then have k: "indexOf (urls q) v = Some k" and ten: "forwardSteps q k = 10"
    and one: "priority j = 1" by simp_all
  from indexOf_Some [OF k] have "k < length (urls q)" by simp
  from cutDistance_forwardSteps [OF assms(3) this] ten have "cutDistance q k = 10" by simp
  with k one assms(1) have cut: "?P (v, j)"
    by (simp add: canCutInLine_def maxCutsForPriority_def)
  from h have mem: "(v, j) \<in> set ?xs"
    by (simp add: set_stableSort set_readyPriorityUrls rdy)
  from h have others: "\<forall>y \<in> set ?xs. y \<noteq> (v, j) \<and> ?P y \<longrightarrow> \<not> keyLe (snd y) (snd (v, j))"
    by (auto simp: set_stableSort set_readyPriorityUrls rdy)
  from find_first_unique [OF sorted_stableSort mem cut others]
  have "find ?P ?xs = Some (v, j)" .
  then show "fst (getNextPriorityUrl now q) = Some v"
    by (simp add: getNextPriorityUrl_find)
qed

text \<open>
  The proviso is needed: in \<open>twoTierOnes\<close> the record of \<open>u10\<close> is tier 1, exactly 10 steps ahead
  of the cursor and never checked, yet the call returns \<open>u03\<close>, a tier-1 record promoted
  earlier.
\<close>

theorem tier_one_at_limit_counterexample:
  "maxLineCuts twoTierOnes = 5
   \<and> map_of (priorityMap twoTierOnes) ''u10'' = Some \<lparr>priority = 1, addedAt = 5\<rparr>
   \<and> indexOf (urls twoTierOnes) ''u10'' = Some 10 \<and> forwardSteps twoTierOnes 10 = 10
   \<and> throttleElapsed 30000 twoTierOnes ''u10''
   \<and> fst (getNextPriorityUrl 30000 twoTierOnes) = Some ''u03''
   \<and> fst (getNextPriorityUrl 30000 twoTierOnes) \<noteq> Some ''u10''"
  by (simp add: twoTierOnes_def queue_eval)

theorem line_cutting_bound_witness:
  "maxLineCuts loneTierOne = 5 \<and> priorityCheckInterval loneTierOne = 30000
   \<and> currentIndex loneTierOne < length (urls loneTierOne) \<and> (30000::int) \<le> 30000
   \<and> (''u10'', \<lparr>priority = 1, addedAt = 0\<rparr>) \<in> set (priorityMap loneTierOne)
   \<and> indexOf (urls loneTierOne) ''u10'' = Some 10 \<and> forwardSteps loneTierOne 10 = 10
   \<and> throttleElapsed 30000 loneTierOne ''u10''
   \<and> fst (getNextPriorityUrl 30000 loneTierOne) = Some ''u10''
   \<and> (\<exists>info idx. (''u10'', info) \<in> set (priorityMap loneTierOne) \<and> indexOf (urls loneTierOne) ''u10'' = Some idx
         \<and> forwardSteps loneTierOne idx \<le> 10)"
proof -
  have hyps: "maxLineCuts loneTierOne = 5" "priorityCheckInterval loneTierOne = 30000"
    "currentIndex loneTierOne < length (urls loneTierOne)" "(30000::int) \<le> 30000"
    by (simp_all add: loneTierOne_def queue_eval)
  have rec: "(''u10'', \<lparr>priority = 1, addedAt = 0\<rparr>) \<in> set (priorityMap loneTierOne)"
    "indexOf (urls loneTierOne) ''u10'' = Some 10" "forwardSteps loneTierOne 10 = 10"
    "throttleElapsed 30000 loneTierOne ''u10''"
    by (simp_all add: loneTierOne_def queue_eval)
  have alone: "\<forall>(w, i) \<in> set (priorityMap loneTierOne).
      (w, i) \<noteq> (''u10'', \<lparr>priority = 1, addedAt = 0\<rparr>) \<and> throttleElapsed 30000 loneTierOne w
      \<and> canCutInLine loneTierOne w (priority i) \<longrightarrow> \<not> keyLe i \<lparr>priority = 1, addedAt = 0\<rparr>"
    by (simp add: loneTierOne_def queue_eval)
  obtain q' where g: "getNextPriorityUrl 30000 loneTierOne = (fst (getNextPriorityUrl 30000 loneTierOne), q')"
    by (cases "getNextPriorityUrl 30000 loneTierOne") simp
  note inst = line_cutting_bound [OF hyps, of "''u10''" q' "''u10''" "\<lparr>priority = 1, addedAt = 0\<rparr>" 10]
  from inst rec alone have ret: "fst (getNextPriorityUrl 30000 loneTierOne) = Some ''u10''" by simp
  with g have "getNextPriorityUrl 30000 loneTierOne = (Some ''u10'', q')" by simp
  with inst have "\<exists>info idx. (''u10'', info) \<in> set (priorityMap loneTierOne)
        \<and> indexOf (urls loneTierOne) ''u10'' = Some idx
        \<and> forwardSteps loneTierOne idx \<le> (if priority info = 1 then 10 else if priority info = 2 then 5
                    else if priority info = 3 then 2 else 0)"
    by blast
  then have bound: "\<exists>info idx. (''u10'', info) \<in> set (priorityMap loneTierOne)
        \<and> indexOf (urls loneTierOne) ''u10'' = Some idx \<and> forwardSteps loneTierOne idx \<le> 10"
    by (metis rec(2) rec(3) order_refl option.inject rec(1))
  from hyps rec ret bound show ?thesis by simp
qed

lemma getNextPriorityUrl_urls_nonempty:
  assumes "getNextPriorityUrl now q = (Some u, q')"
  shows "urls q \<noteq> []"
proof -
  from getNextPriorityUrl_Some [OF assms] obtain info :: priorityInfo
    where "canCutInLine q u (priority info)" by auto
  then show ?thesis by (auto simp: canCutInLine_def)
qed

text \<open>
  Claim C2. When the priority path of \<^verbatim>\<open>getNextUrl\<close> yields a (non-empty) url, that url
  is the result, its last-check stamp is set to the clock value, and the cursor, the
  rotation and the priority records are unchanged. In the scenario: rotation
  \<open>[A, B, C, D]\<close>, cursor at \<open>A\<close>, \<open>C\<close> promoted to tier 1 at time 0; a call at
  \<open>t1 \<ge> 30000\<close> returns \<open>C\<close> and leaves the cursor on \<open>A\<close>; the next call, made
  before the throttle of \<open>C\<close> elapses again, returns \<open>A\<close> and moves the cursor to \<open>B\<close>.
\<close>

theorem priority_hit_keeps_cursor:
  "(getNextPriorityUrl now q = (Some u, q') \<and> u \<noteq> [] \<longrightarrow>
      getNextUrl now q = (Some u, q') \<and> currentIndex q' = currentIndex q \<and> urls q' = urls q
      \<and> priorityMap q' = priorityMap q
      \<and> lastPriorityCheck q' = (lastPriorityCheck q)(u \<mapsto> now))
   \<and> (C \<noteq> [] \<and> 30000 \<le> t1 \<and> t1 \<le> t2 \<and> t2 < t1 + 30000 \<longrightarrow>
       (let q1 = setPriority C 1 0 (initialize [A, B, C, D] newPriorityQueue);
            q2 = snd (getNextUrl t1 q1);
            q3 = snd (getNextUrl t2 q2)
        in fst (getNextUrl t1 q1) = Some C
           \<and> currentIndex q2 = 0 \<and> urls q2 ! currentIndex q2 = A
           \<and> lastPriorityCheck q2 C = Some t1
           \<and> fst (getNextUrl t2 q2) = Some A
           \<and> currentIndex q3 = 1 \<and> urls q3 ! currentIndex q3 = B))"
proof (rule conjI; rule impI)
  assume h: "getNextPriorityUrl now q = (Some u, q') \<and> u \<noteq> []"
  then have g: "getNextPriorityUrl now q = (Some u, q')" and ne: "u \<noteq> []" by simp_all
  from getNextPriorityUrl_urls_nonempty [OF g] g ne
  have "getNextUrl now q = (Some u, q')" by (simp add: getNextUrl_def)
  moreover from getNextPriorityUrl_Some [OF g]
  have "q' = q\<lparr>lastPriorityCheck := (lastPriorityCheck q)(u \<mapsto> now)\<rparr>" by blast
  ultimately show "getNextUrl now q = (Some u, q') \<and> currentIndex q' = currentIndex q
      \<and> urls q' = urls q \<and> priorityMap q' = priorityMap q
      \<and> lastPriorityCheck q' = (lastPriorityCheck q)(u \<mapsto> now)"
    by simp
next
  assume "C \<noteq> [] \<and> 30000 \<le> t1 \<and> t1 \<le> t2 \<and> t2 < t1 + 30000"
  then show "let q1 = setPriority C 1 0 (initialize [A, B, C, D] newPriorityQueue);
            q2 = snd (getNextUrl t1 q1);
            q3 = snd (getNextUrl t2 q2)
        in fst (getNextUrl t1 q1) = Some C
           \<and> currentIndex q2 = 0 \<and> urls q2 ! currentIndex q2 = A
           \<and> lastPriorityCheck q2 C = Some t1
           \<and> fst (getNextUrl t2 q2) = Some A
           \<and> currentIndex q3 = 1 \<and> urls q3 ! currentIndex q3 = B"
    by (simp add: queue_eval Let_def)
qed

theorem priority_hit_keeps_cursor_witness:
  "(let q1 = setPriority ''C'' 1 0 (initialize [''A'', ''B'', ''C'', ''D''] newPriorityQueue);
        q2 = snd (getNextUrl 30000 q1);
        q3 = snd (getNextUrl 30500 q2)
    in fst (getNextPriorityUrl 30000 q1) = Some ''C''
       \<and> fst (getNextUrl 30000 q1) = Some ''C''
       \<and> currentIndex q2 = 0 \<and> urls q2 ! currentIndex q2 = ''A''
       \<and> lastPriorityCheck q2 ''C'' = Some 30000
       \<and> fst (getNextUrl 30500 q2) = Some ''A''
       \<and> currentIndex q3 = 1 \<and> urls q3 ! currentIndex q3 = ''B'')"
proof -
  have pre: "''C'' \<noteq> [] \<and> (30000::int) \<le> 30000 \<and> (30000::int) \<le> 30500 \<and> (30500::int) < 30000 + 30000"
    by simp
  have p: "fst (getNextPriorityUrl 30000
             (setPriority ''C'' 1 0 (initialize [''A'', ''B'', ''C'', ''D''] newPriorityQueue))) = Some ''C''"
    by (simp add: queue_eval)
  note scen = priority_hit_keeps_cursor
    [of 30000 newPriorityQueue "''C''" newPriorityQueue "''C''" 30000 30500 "''A''" "''B''" "''D''",
     THEN conjunct2, rule_format, OF pre]
  from scen p show ?thesis unfolding Let_def by blast
qed

lemma pulls_no_priority:
  assumes "priorityMap q = []" and "currentIndex q < length (urls q)"
  shows "priorityMap (pulls k clock q) = [] \<and> urls (pulls k clock q) = urls q
         \<and> lastPriorityCheck (pulls k clock q) = lastPriorityCheck q
         \<and> currentIndex (pulls k clock q) = (currentIndex q + k) mod length (urls q)"
proof (induction k)
  case 0
  from assms show ?case by simp
next
  case (Suc k)
  then show ?case using assms(2)
    by (auto simp: getNextUrl_def getNextPriorityUrl_def readyPriorityUrls_def nextRegularUrl_def
          mod_Suc_eq)
qed

lemma getStatus_cycle_constant:
  assumes "priorityMap q = []" and "currentIndex q < length (urls q)"
  shows "cycle (getStatus (pulls k clock q)) = Some 1
         \<and> currentPosition (getStatus (pulls k clock q)) = (currentIndex q + k) mod length (urls q) + 1"
  using pulls_no_priority [OF assms, of k clock] assms(2)
  by (auto simp: getStatus_def)

text \<open>
  Claim C8 at a concrete input: after two base pulls over the rotation \<open>[A, B]\<close> the
  cursor is back at 0 and \<^verbatim>\<open>getStatus\<close> reports position 1 and cycle 1, not
  \<open>2 div 2 + 1 = 2\<close>. By \<open>getStatus_cycle_constant\<close> the reported cycle is 1 after any
  number of pulls, because \<^verbatim>\<open>getNextUrl\<close> wraps the cursor.
\<close>

theorem getStatus_cycle_after_full_rotation:
  "(let q = pulls 2 (\<lambda>k. 0) (initialize [''A'', ''B''] newPriorityQueue)
    in currentIndex q = 0 \<and> totalUrls (getStatus q) = 2 \<and> currentPosition (getStatus q) = 1
       \<and> cycle (getStatus q) = Some 1 \<and> cycle (getStatus q) \<noteq> Some (2 div 2 + 1))"
proof -
  have "pulls 2 (\<lambda>k. 0) q = snd (getNextUrl 0 (snd (getNextUrl 0 q)))" for q
    by (simp add: numeral_2_eq_2)
  then show ?thesis
    by (simp add: Let_def queue_eval getStatus_def)
qed

section \<open>Properties of the rotation builder\<close>

lemma fst_shiftRound: "fst (shiftRound qs) = [h. (h # t) \<leftarrow> qs]"
  by (induction qs rule: shiftRound.induct) (simp_all add: case_prod_beta)

lemma snd_shiftRound: "snd (shiftRound qs) = map tl qs"
  by (induction qs rule: shiftRound.induct) (simp_all add: case_prod_beta)

lemma heads_filter_nonempty: "[h. (h # t) \<leftarrow> filter (\<lambda>q. q \<noteq> []) qs] = [h. (h # t) \<leftarrow> qs]"
  by (induction qs) (auto split: list.splits)

lemma tails_filter_nonempty: "[t. (h # t) \<leftarrow> filter (\<lambda>q. q \<noteq> []) qs] = [t. (h # t) \<leftarrow> qs]"
  by (induction qs) (auto split: list.splits)

lemma transpose_filter_nonempty: "transpose (filter (\<lambda>q. q \<noteq> []) qs) = transpose qs"
  by (induction qs rule: transpose.induct)
     (simp_all add: heads_filter_nonempty tails_filter_nonempty)

lemma tails_eq: "filter (\<lambda>q. q \<noteq> []) [t. (h # t) \<leftarrow> qs] = filter (\<lambda>q. q \<noteq> []) (map tl qs)"
  by (induction qs) (auto split: list.splits)

lemma transpose_tails: "transpose (q # [t. (h # t) \<leftarrow> qs]) = transpose (q # map tl qs)"
proof -
  have "transpose (q # [t. (h # t) \<leftarrow> qs]) = transpose (filter (\<lambda>q. q \<noteq> []) (q # [t. (h # t) \<leftarrow> qs]))"
    by (simp only: transpose_filter_nonempty)
  also have "\<dots> = transpose (filter (\<lambda>q. q \<noteq> []) (q # map tl qs))"
    by (simp add: tails_eq)
  also have "\<dots> = transpose (q # map tl qs)"
    by (simp only: transpose_filter_nonempty)
  finally show ?thesis .
qed

lemma transpose_shiftRound:
  "list_ex (\<lambda>queue. length queue > 0) qs \<Longrightarrow>
     transpose qs = fst (shiftRound qs) # transpose (snd (shiftRound qs))"
proof (induction qs rule: shiftRound.induct)
  case 1
  then show ?case by simp
next
  case (2 queues)
  then show ?case by (simp add: case_prod_beta)
next
  case (3 x queue queues)
  show ?case
    by (simp add: case_prod_beta fst_shiftRound snd_shiftRound transpose_tails)
qed

lemma interleaveLoop_transpose: "interleaveLoop qs acc = acc @ concat (transpose qs)"
proof (induction qs acc rule: interleaveLoop.induct)
  case (1 urlQueues interleavedUrls)
  show ?case
  proof (cases "list_ex (\<lambda>queue. length queue > 0) urlQueues")
    case True
    from "1.IH" [OF True] transpose_shiftRound [OF True] True show ?thesis
      by (simp add: interleaveLoop.simps [of urlQueues])
  next
    case False
    then have "transpose urlQueues = []"
      by (simp add: transpose_empty list_ex_iff)
    with False show ?thesis
      by (simp add: interleaveLoop.simps [of urlQueues])
  qed
qed

lemma mset_shiftRound:
  "mset (fst (shiftRound qs)) + mset (concat (snd (shiftRound qs))) = mset (concat qs)"
  by (induction qs rule: shiftRound.induct) (simp_all add: case_prod_beta)

lemma mset_interleaveLoop: "mset (interleaveLoop qs acc) = mset acc + mset (concat qs)"
proof (induction qs acc rule: interleaveLoop.induct)
  case (1 urlQueues interleavedUrls)
  show ?case
  proof (cases "list_ex (\<lambda>queue. length queue > 0) urlQueues")
    case True
    from "1.IH" [OF True] mset_shiftRound [of urlQueues] True show ?thesis
      by (simp add: interleaveLoop.simps [of urlQueues] ac_simps)
  next
    case False
    then have "concat urlQueues = []"
      by (auto simp: list_ex_iff)
    with False show ?thesis
      by (simp add: interleaveLoop.simps [of urlQueues])
  qed
qed

text \<open>
  Claim C9. The rotation built by \<^verbatim>\<open>interleaveUrls\<close> is the concatenation of the rounds of
  \<^const>\<open>transpose\<close>: round \<open>i\<close> holds, in group order, element \<open>i\<close> of every group that has
  one. Every url of every group occurs in it exactly as often as in the groups, and the
  cursor starts at 0. For the groups \<open>[p1a, p1b]\<close> and \<open>[p2a]\<close> it is \<open>[p1a, p2a, p1b]\<close>.
\<close>

theorem interleaveUrls_round_robin:
  "urls (interleaveUrls products q) = concat (transpose (map productUrls products))
   \<and> mset (urls (interleaveUrls products q)) = mset (concat (map productUrls products))
   \<and> currentIndex (interleaveUrls products q) = 0
   \<and> (map productUrls products = [[p1a, p1b], [p2a]] \<longrightarrow>
         urls (interleaveUrls products q) = [p1a, p2a, p1b])"
  by (simp add: interleaveUrls_def initialize_def interleaveLoop_transpose
        mset_interleaveLoop [of _ "[]", simplified interleaveLoop_transpose, simplified])

theorem interleaveUrls_round_robin_witness:
  "map productUrls
     [\<lparr>baseUrl = ''b1'', productCount = 2, spuExtId = 1, productUrls = [''p1a'', ''p1b'']\<rparr>,
      \<lparr>baseUrl = ''b2'', productCount = 1, spuExtId = 2, productUrls = [''p2a'']\<rparr>]
     = [[''p1a'', ''p1b''], [''p2a'']]
   \<and> urls (interleaveUrls
       [\<lparr>baseUrl = ''b1'', productCount = 2, spuExtId = 1, productUrls = [''p1a'', ''p1b'']\<rparr>,
        \<lparr>baseUrl = ''b2'', productCount = 1, spuExtId = 2, productUrls = [''p2a'']\<rparr>]
       newPriorityQueue) = [''p1a'', ''p2a'', ''p1b'']"
  using interleaveUrls_round_robin
    [of "[\<lparr>baseUrl = ''b1'', productCount = 2, spuExtId = 1, productUrls = [''p1a'', ''p1b'']\<rparr>,
          \<lparr>baseUrl = ''b2'', productCount = 1, spuExtId = 2, productUrls = [''p2a'']\<rparr>]"
        newPriorityQueue "''p1a''" "''p1b''" "''p2a''"]
  by simp

section \<open>Properties of observation processing\<close>

lemma hasDataChanged_cong:
  assumes "state0 n1 = state0 n2" "state1 n1 = state1 n2" "state2 n1 = state2 n2"
    "state3 n1 = state3 n2" "state4 n1 = state4 n2" "state5 n1 = state5 n2" "stock n1 = stock n2"
  shows "hasDataChanged existing n1 = hasDataChanged existing n2"
  using assms by (simp add: hasDataChanged_def joinedStates_def split: option.splits)

lemma hasDataChanged_same: "hasDataChanged (Some e) (e\<lparr>lastChecked := t\<rparr>) = False"
  by (simp add: hasDataChanged_def joinedStates_def)

lemma processStockData_None: "processStockData None u now isoNow onDisk sb = sb"
  by (simp add: processStockData_def)

lemma processStockData_Some:
  "processStockData (Some d) u now isoNow onDisk sb =
     (let sid = spu_ext_id d;
          new = makeStockEntry u (extractStates (box_list d)) (extractHasStock (box_list d)) isoNow;
          urlMap = (case stockData sb sid of None \<Rightarrow> onDisk | Some m \<Rightarrow> m);
          changed = hasDataChanged (map_of urlMap u) new
      in \<lparr>priorityQueue = updateUrlPriority u (Some d) now (priorityQueue sb),
          stockData = (stockData sb)(sid \<mapsto> (if changed then AList.update u new urlMap else urlMap)),
          webServer = webServer sb,
          tsvFiles = (if changed then (tsvFiles sb)(sid \<mapsto> tsvContent (AList.update u new urlMap))
                      else tsvFiles sb),
          broadcasts = (if webServer sb then broadcasts sb @ [(sid, u, new)] else broadcasts sb)\<rparr>)"
  by (simp add: processStockData_def updateTsvFile_def Let_def)

lemmas stock_eval =
  processStockData_Some sampleResponse_def freshBot_def botAfterFirst_def storedEntry_def makeStockEntry_def extractStates_def
  extractHasStock_def inRange_def hasBoxNo_def isWhiteSpace_def showInt_def showNat.simps
  hasDataChanged_def joinedStates_def orEmpty_def Let_def

lemma botAfterFirst_store: "stockData botAfterFirst 7 = Some [(''u'', storedEntry)]" "webServer botAfterFirst"
  "broadcasts botAfterFirst = [(7, ''u'', storedEntry)]"
  by (simp_all add: stock_eval)

lemma sampleResponse_id: "spu_ext_id sampleResponse = 7"
  by (simp add: sampleResponse_def)

lemma new_entry_sampleResponse:
  "makeStockEntry ''u'' (extractStates (box_list sampleResponse)) (extractHasStock (box_list sampleResponse)) t
     = storedEntry\<lparr>lastChecked := Some t\<rparr>"
  by (simp add: stock_eval)

text \<open>
  Claim C6, as amended. Without structured data nothing happens. Otherwise the new entry is
  compared with the stored one (from memory, or from the file when the group is loaded
  now): if \<^verbatim>\<open>hasDataChanged\<close> holds, the entry replaces the stored one and the group's file
  is rewritten from the updated map; if not, the map keeps the old entry and no file is
  written. No other group is touched. Whether or not the data changed, one
  \<^verbatim>\<open>broadcastUpdate\<close> call with the new entry is made when a web server is attached.
\<close>

theorem processStockData_persists_on_change:
  "processStockData None u now isoNow onDisk sb = sb
   \<and> (let sid = spu_ext_id d;
           new = makeStockEntry u (extractStates (box_list d)) (extractHasStock (box_list d)) isoNow;
           urlMap = (case stockData sb sid of None \<Rightarrow> onDisk | Some m \<Rightarrow> m);
           sb' = processStockData (Some d) u now isoNow onDisk sb
       in (hasDataChanged (map_of urlMap u) new \<longrightarrow>
             stockData sb' sid = Some (AList.update u new urlMap)
             \<and> tsvFiles sb' sid = Some (tsvContent (AList.update u new urlMap)))
          \<and> (\<not> hasDataChanged (map_of urlMap u) new \<longrightarrow>
               stockData sb' sid = Some urlMap \<and> tsvFiles sb' = tsvFiles sb)
          \<and> (\<forall>g. g \<noteq> sid \<longrightarrow> stockData sb' g = stockData sb g \<and> tsvFiles sb' g = tsvFiles sb g)
          \<and> broadcasts sb' =
               (if webServer sb then broadcasts sb @ [(sid, u, new)] else broadcasts sb))"
  by (simp add: processStockData_None processStockData_Some Let_def)

text \<open>
  The notification is not tied to a change: processing the same response a second time
  finds the observation unchanged and writes nothing, yet appends a broadcast.
\<close>

theorem unchanged_observation_still_broadcast:
  "\<not> hasDataChanged (map_of [(''u'', storedEntry)] ''u'') (storedEntry\<lparr>lastChecked := Some ''2024-01-01T00:00:09.000Z''\<rparr>)
   \<and> stockData (processStockData (Some sampleResponse) ''u'' 9005 ''2024-01-01T00:00:09.000Z'' [] botAfterFirst) 7
       = stockData botAfterFirst 7
   \<and> tsvFiles (processStockData (Some sampleResponse) ''u'' 9005 ''2024-01-01T00:00:09.000Z'' [] botAfterFirst)
       = tsvFiles botAfterFirst
   \<and> broadcasts (processStockData (Some sampleResponse) ''u'' 9005 ''2024-01-01T00:00:09.000Z'' [] botAfterFirst)
       = broadcasts botAfterFirst @ [(7, ''u'', storedEntry\<lparr>lastChecked := Some ''2024-01-01T00:00:09.000Z''\<rparr>)]
   \<and> broadcasts (processStockData (Some sampleResponse) ''u'' 9005 ''2024-01-01T00:00:09.000Z'' [] botAfterFirst)
       \<noteq> broadcasts botAfterFirst"
  by (simp add: processStockData_Some Let_def sampleResponse_id botAfterFirst_store new_entry_sampleResponse hasDataChanged_same)

theorem processStockData_persists_on_change_witness:
  "hasDataChanged (map_of [] ''u'') storedEntry
   \<and> stockData botAfterFirst 7 = Some (AList.update ''u'' storedEntry [])
   \<and> tsvFiles botAfterFirst 7 = Some (tsvContent (AList.update ''u'' storedEntry []))
   \<and> \<not> hasDataChanged (map_of [(''u'', storedEntry)] ''u'') (storedEntry\<lparr>lastChecked := Some ''t9''\<rparr>)
   \<and> stockData (processStockData (Some sampleResponse) ''u'' 9005 ''t9'' [] botAfterFirst) 7 = Some [(''u'', storedEntry)]
   \<and> tsvFiles (processStockData (Some sampleResponse) ''u'' 9005 ''t9'' [] botAfterFirst) = tsvFiles botAfterFirst"
proof -
  have first: "hasDataChanged (map_of [] ''u'') storedEntry" by (simp add: hasDataChanged_def)
  have second: "\<not> hasDataChanged (map_of [(''u'', storedEntry)] ''u'') (storedEntry\<lparr>lastChecked := Some ''t9''\<rparr>)"
    by (simp add: hasDataChanged_same)
  note sid = sampleResponse_id
  have sd0: "stockData freshBot 7 = None" by (simp add: freshBot_def)
  note a = processStockData_persists_on_change
    [of "''u''" 5 "''2024-01-01T00:00:00.000Z''" "[]" freshBot sampleResponse, THEN conjunct2,
     unfolded Let_def sid sd0 new_entry_sampleResponse, folded botAfterFirst_def, simplified]
  note b = processStockData_persists_on_change
    [of "''u''" 9005 "''t9''" "[]" botAfterFirst sampleResponse, THEN conjunct2,
     unfolded Let_def sid botAfterFirst_store new_entry_sampleResponse, simplified]
  have e: "storedEntry\<lparr>lastChecked := Some ''2024-01-01T00:00:00.000Z''\<rparr> = storedEntry" by (simp add: storedEntry_def)
  from a first e have "stockData botAfterFirst 7 = Some (AList.update ''u'' storedEntry [])
     \<and> tsvFiles botAfterFirst 7 = Some (tsvContent (AList.update ''u'' storedEntry []))"
    by (simp add: hasDataChanged_def)
  moreover from b second
  have "stockData (processStockData (Some sampleResponse) ''u'' 9005 ''t9'' [] botAfterFirst) 7 = Some [(''u'', storedEntry)]
     \<and> tsvFiles (processStockData (Some sampleResponse) ''u'' 9005 ''t9'' [] botAfterFirst) = tsvFiles botAfterFirst"
    by (simp add: hasDataChanged_same)
  ultimately show ?thesis using first second by simp
qed

lemma processStockData_unchanged:
  assumes sd: "stockData sb (spu_ext_id d) = Some urlMap"
    and ex: "map_of urlMap u = Some e"
    and same: "\<not> hasDataChanged (Some e)
                 (makeStockEntry u (extractStates (box_list d)) (extractHasStock (box_list d)) isoNow)"
  shows "stockData (processStockData (Some d) u now isoNow onDisk sb) = stockData sb"
    and "tsvFiles (processStockData (Some d) u now isoNow onDisk sb) = tsvFiles sb"
proof -
  from sd have triv: "(stockData sb)(spu_ext_id d \<mapsto> urlMap) = stockData sb"
    by (simp add: map_upd_triv)
  from sd ex same triv
  show "stockData (processStockData (Some d) u now isoNow onDisk sb) = stockData sb"
    by (simp add: processStockData_Some Let_def)
  from sd ex same
  show "tsvFiles (processStockData (Some d) u now isoNow onDisk sb) = tsvFiles sb"
    by (simp add: processStockData_Some Let_def)
qed

text \<open>
  Claim C10. \<^verbatim>\<open>hasDataChanged\<close> gives the same verdict for two new entries that agree on
  the six state slots and on \<^verbatim>\<open>stock\<close>, whatever their \<^verbatim>\<open>lastChecked\<close>; an entry that
  differs from the stored one only in \<^verbatim>\<open>lastChecked\<close> is unchanged; and processing such an
  observation leaves the in-memory store and the files as they were.
\<close>

theorem hasDataChanged_ignores_lastChecked:
  "(state0 n1 = state0 n2 \<and> state1 n1 = state1 n2 \<and> state2 n1 = state2 n2
      \<and> state3 n1 = state3 n2 \<and> state4 n1 = state4 n2 \<and> state5 n1 = state5 n2
      \<and> stock n1 = stock n2 \<longrightarrow>
        hasDataChanged existing n1 = hasDataChanged existing n2)
   \<and> \<not> hasDataChanged (Some e) (e\<lparr>lastChecked := t\<rparr>)
   \<and> (stockData sb (spu_ext_id d) = Some urlMap \<and> map_of urlMap u = Some e
        \<and> makeStockEntry u (extractStates (box_list d)) (extractHasStock (box_list d)) isoNow
            = e\<lparr>lastChecked := Some isoNow\<rparr> \<longrightarrow>
          stockData (processStockData (Some d) u now isoNow onDisk sb) = stockData sb
          \<and> tsvFiles (processStockData (Some d) u now isoNow onDisk sb) = tsvFiles sb)"
proof -
  have a: "state0 n1 = state0 n2 \<and> state1 n1 = state1 n2 \<and> state2 n1 = state2 n2
      \<and> state3 n1 = state3 n2 \<and> state4 n1 = state4 n2 \<and> state5 n1 = state5 n2
      \<and> stock n1 = stock n2 \<longrightarrow>
        hasDataChanged existing n1 = hasDataChanged existing n2"
  proof (rule impI)
    assume "state0 n1 = state0 n2 \<and> state1 n1 = state1 n2 \<and> state2 n1 = state2 n2
      \<and> state3 n1 = state3 n2 \<and> state4 n1 = state4 n2 \<and> state5 n1 = state5 n2
      \<and> stock n1 = stock n2"
    then show "hasDataChanged existing n1 = hasDataChanged existing n2"
      by (intro hasDataChanged_cong) simp_all
  qed
  have b: "\<not> hasDataChanged (Some e) (e\<lparr>lastChecked := t\<rparr>)"
    by (simp add: hasDataChanged_same)
  have c: "stockData (processStockData (Some d) u now isoNow onDisk sb) = stockData sb
          \<and> tsvFiles (processStockData (Some d) u now isoNow onDisk sb) = tsvFiles sb"
    if h: "stockData sb (spu_ext_id d) = Some urlMap \<and> map_of urlMap u = Some e
        \<and> makeStockEntry u (extractStates (box_list d)) (extractHasStock (box_list d)) isoNow
            = e\<lparr>lastChecked := Some isoNow\<rparr>"
  proof -
    from h have sd: "stockData sb (spu_ext_id d) = Some urlMap"
      and ex: "map_of urlMap u = Some e"
      and eq: "makeStockEntry u (extractStates (box_list d)) (extractHasStock (box_list d)) isoNow
            = e\<lparr>lastChecked := Some isoNow\<rparr>"
      by blast+
    have same: "\<not> hasDataChanged (Some e)
                 (makeStockEntry u (extractStates (box_list d)) (extractHasStock (box_list d)) isoNow)"
      unfolding eq by (simp add: hasDataChanged_same)
    from processStockData_unchanged [OF sd ex same] show ?thesis by blast
  qed
  from a b c show ?thesis by blast
qed

theorem hasDataChanged_ignores_lastChecked_witness:
  "stockData botAfterFirst (spu_ext_id sampleResponse) = Some [(''u'', storedEntry)] \<and> map_of [(''u'', storedEntry)] ''u'' = Some storedEntry
   \<and> makeStockEntry ''u'' (extractStates (box_list sampleResponse)) (extractHasStock (box_list sampleResponse)) ''t9''
       = storedEntry\<lparr>lastChecked := Some ''t9''\<rparr>
   \<and> state0 (storedEntry\<lparr>lastChecked := Some ''t8''\<rparr>) = state0 (storedEntry\<lparr>lastChecked := Some ''t9''\<rparr>)
   \<and> hasDataChanged (Some storedEntry) (storedEntry\<lparr>lastChecked := Some ''t8''\<rparr>)
       = hasDataChanged (Some storedEntry) (storedEntry\<lparr>lastChecked := Some ''t9''\<rparr>)
   \<and> stockData (processStockData (Some sampleResponse) ''u'' 9005 ''t9'' [] botAfterFirst) = stockData botAfterFirst
   \<and> tsvFiles (processStockData (Some sampleResponse) ''u'' 9005 ''t9'' [] botAfterFirst) = tsvFiles botAfterFirst"
proof -
  have pre: "stockData botAfterFirst (spu_ext_id sampleResponse) = Some [(''u'', storedEntry)] \<and> map_of [(''u'', storedEntry)] ''u'' = Some storedEntry
     \<and> makeStockEntry ''u'' (extractStates (box_list sampleResponse)) (extractHasStock (box_list sampleResponse)) ''t9''
         = storedEntry\<lparr>lastChecked := Some ''t9''\<rparr>"
    by (simp add: botAfterFirst_store new_entry_sampleResponse sampleResponse_id)
  note inst = hasDataChanged_ignores_lastChecked
    [of "storedEntry\<lparr>lastChecked := Some ''t8''\<rparr>" "storedEntry\<lparr>lastChecked := Some ''t9''\<rparr>" "Some storedEntry"
        storedEntry "Some ''t9''" botAfterFirst sampleResponse "[(''u'', storedEntry)]" "''u''" "''t9''" 9005 "[]"]
  from inst pre show ?thesis by simp
qed

section \<open>Properties of retry with backoff\<close>

lemma shouldRetryError_throttled: "shouldRetryError throttled"
  by code_simp

lemma shouldRetryError_denied: "\<not> shouldRetryError denied"
  by code_simp

lemma retryFrom_step:
  "a \<le> maxRetries cfg \<Longrightarrow>
   retryFrom cfg (scripted f) sleep a le w =
     (case f (calls w) of
        Inr v \<Rightarrow> (Inr v, w\<lparr>calls := calls w + 1\<rparr>)
      | Inl e \<Rightarrow>
          if \<not> shouldRetryError e \<or> a = maxRetries cfg
          then (Inl (Thrown e), w\<lparr>calls := calls w + 1\<rparr>)
          else retryFrom cfg (scripted f) sleep (a + 1) (Thrown e)
                 (sleep (backoffDelay cfg a) (w\<lparr>calls := calls w + 1\<rparr>)))"
  by (subst retryFrom.simps) (simp add: scripted_def split: sum.splits)

lemma retryFrom_scripted:
  assumes "1 \<le> a" and "a \<le> maxRetries cfg"
    and "retryFrom cfg (scripted f) sleep a le w = (r, w')"
  shows "\<exists>m\<ge>1. a + m - 1 \<le> maxRetries cfg
           \<and> calls w' = calls w + m
           \<and> delays w' = delays w @ map (backoffDelay cfg) [a..<a + m - 1]
           \<and> (\<forall>k<m - 1. \<exists>e. f (calls w + k) = Inl e \<and> shouldRetryError e)
           \<and> r = (case f (calls w + m - 1) of Inr v \<Rightarrow> Inr v | Inl e \<Rightarrow> Inl (Thrown e))
           \<and> (\<forall>e. f (calls w + m - 1) = Inl e \<longrightarrow>
                  \<not> shouldRetryError e \<or> a + m - 1 = maxRetries cfg)"
  using assms
proof (induction "maxRetries cfg - a" arbitrary: a le w r w')
  case 0
  then have last: "a = maxRetries cfg" by simp
  let ?w1 = "w\<lparr>calls := calls w + 1\<rparr>"
  have op: "scripted f w = (f (calls w), ?w1)" by (simp add: scripted_def)
  from "0.prems"(3) retryFrom_step [OF "0.prems"(2), of f le w] last
  have "r = (case f (calls w) of Inr v \<Rightarrow> Inr v | Inl e \<Rightarrow> Inl (Thrown e))" "w' = ?w1"
    by (auto split: sum.splits)
  with last show ?case
    by (intro exI [of _ 1]) simp
next
  case (Suc n)
  let ?w1 = "w\<lparr>calls := calls w + 1\<rparr>"
  have op: "scripted f w = (f (calls w), ?w1)" by (simp add: scripted_def)
  from Suc.hyps(2) have lt: "a < maxRetries cfg" by simp
  show ?case
  proof (cases "\<exists>e. f (calls w) = Inl e \<and> shouldRetryError e")
    case False
    with Suc.prems(3) retryFrom_step [OF Suc.prems(2), of f le w]
    have "r = (case f (calls w) of Inr v \<Rightarrow> Inr v | Inl e \<Rightarrow> Inl (Thrown e))" "w' = ?w1"
      by (auto split: sum.splits)
    with False Suc.prems(1,2) show ?thesis
      by (intro exI [of _ 1]) auto
  next
    case True
    then obtain e where e: "f (calls w) = Inl e" "shouldRetryError e" by blast
    let ?w2 = "sleep (backoffDelay cfg a) ?w1"
    from Suc.prems(3) retryFrom_step [OF Suc.prems(2), of f le w] lt e
    have rec: "retryFrom cfg (scripted f) sleep (a + 1) (Thrown e) ?w2 = (r, w')"
      by simp
    from Suc.hyps(2) have n: "n = maxRetries cfg - (a + 1)" by simp
    from lt have le': "a + 1 \<le> maxRetries cfg" by simp
    have one: "1 \<le> a + 1" by simp
    from Suc.hyps(1) [OF n one le' rec] obtain m where m: "m \<ge> 1"
      "a + 1 + m - 1 \<le> maxRetries cfg"
      "calls w' = calls ?w2 + m"
      "delays w' = delays ?w2 @ map (backoffDelay cfg) [a + 1..<a + 1 + m - 1]"
      "\<forall>k<m - 1. \<exists>e. f (calls ?w2 + k) = Inl e \<and> shouldRetryError e"
      "r = (case f (calls ?w2 + m - 1) of Inr v \<Rightarrow> Inr v | Inl e \<Rightarrow> Inl (Thrown e))"
      "\<forall>e. f (calls ?w2 + m - 1) = Inl e \<longrightarrow>
            \<not> shouldRetryError e \<or> a + 1 + m - 1 = maxRetries cfg"
      by blast
    have c2: "calls ?w2 = calls w + 1" and d2: "delays ?w2 = delays w @ [backoffDelay cfg a]"
      by (simp_all add: sleep_def)
    have upt: "[a..<a + (m + 1) - 1] = a # [a + 1..<a + 1 + m - 1]"
      using m(1) by (simp add: upt_conv_Cons)
    have all: "\<forall>k<(m + 1) - 1. \<exists>e. f (calls w + k) = Inl e \<and> shouldRetryError e"
    proof (intro allI impI)
      fix k assume k: "k < m + 1 - 1"
      show "\<exists>e. f (calls w + k) = Inl e \<and> shouldRetryError e"
      proof (cases k)
        case 0
        with e show ?thesis by auto
      next
        case (Suc j)
        with k have "j < m - 1" by simp
        with m(5) c2 Suc show ?thesis by simp
      qed
    qed
    have idx: "calls ?w2 + m - 1 = calls w + (m + 1) - 1" using c2 by simp
    show ?thesis
    proof (intro exI [of _ "m + 1"] conjI)
      show "1 \<le> m + 1" by simp
      from m(2) show "a + (m + 1) - 1 \<le> maxRetries cfg" by simp
      from m(3) c2 show "calls w' = calls w + (m + 1)" by simp
      from m(4) d2 upt show "delays w' = delays w @ map (backoffDelay cfg) [a..<a + (m + 1) - 1]"
        by simp
      from all show "\<forall>k<m + 1 - 1. \<exists>e. f (calls w + k) = Inl e \<and> shouldRetryError e" .
      from m(6) idx
      show "r = (case f (calls w + (m + 1) - 1) of Inr v \<Rightarrow> Inr v | Inl e \<Rightarrow> Inl (Thrown e))"
        by simp
      from m(7) idx m(2)
      show "\<forall>e. f (calls w + (m + 1) - 1) = Inl e \<longrightarrow>
              \<not> shouldRetryError e \<or> a + (m + 1) - 1 = maxRetries cfg"
        by simp
    qed
  qed
qed

lemma default_backoff:
  "backoffDelay defaultRetryConfig attempt = min (1500 * 2 ^ (attempt - 1)) 15000"
  by (simp add: backoffDelay_def defaultRetryConfig_def)

text \<open>
  Claim C5, as amended. With the default configuration and an operation whose invocation
  \<open>k\<close> ends as \<open>f k\<close>, \<^verbatim>\<open>retryWithBackoff\<close> invokes the operation at least once and at most
  4 times in all (so it retries at most 3 times); after failed attempt number \<open>attempt\<close>
  it sleeps \<open>min (1500 * 2 ^ (attempt - 1)) 15000\<close> ms, that is 1500, 3000, 6000; every
  invocation but the last threw an error that \<^verbatim>\<open>shouldRetryError\<close> accepts; the result is
  the value of the last invocation or the very error it threw; and an error is thrown only
  if it is not retryable or it is the error of the 4th attempt.
\<close>

theorem retryWithBackoff_schedule:
  assumes "retryWithBackoff defaultRetryConfig (scripted f) sleep noCalls = (r, w)"
  shows "1 \<le> calls w \<and> calls w \<le> 4
         \<and> delays w = map (\<lambda>attempt. min (1500 * 2 ^ (attempt - 1)) 15000) [1..<calls w]
         \<and> delays w = take (calls w - 1) [1500, 3000, 6000]
         \<and> (\<forall>k<calls w - 1. \<exists>e. f k = Inl e \<and> shouldRetryError e)
         \<and> r = (case f (calls w - 1) of Inr v \<Rightarrow> Inr v | Inl e \<Rightarrow> Inl (Thrown e))
         \<and> (\<forall>e. f (calls w - 1) = Inl e \<longrightarrow> \<not> shouldRetryError e \<or> calls w = 4)"
proof -
  have one: "(1::nat) \<le> 1" by simp
  have four: "1 \<le> maxRetries defaultRetryConfig" "maxRetries defaultRetryConfig = 4"
    by (simp_all add: defaultRetryConfig_def)
  from assms have run: "retryFrom defaultRetryConfig (scripted f) sleep 1 ThrownUndefined noCalls = (r, w)"
    by (simp add: retryWithBackoff_def)
  from retryFrom_scripted [OF one four(1) run] obtain m where m: "m \<ge> 1"
    "1 + m - 1 \<le> maxRetries defaultRetryConfig"
    "calls w = calls noCalls + m"
    "delays w = delays noCalls @ map (backoffDelay defaultRetryConfig) [1..<1 + m - 1]"
    "\<forall>k<m - 1. \<exists>e. f (calls noCalls + k) = Inl e \<and> shouldRetryError e"
    "r = (case f (calls noCalls + m - 1) of Inr v \<Rightarrow> Inr v | Inl e \<Rightarrow> Inl (Thrown e))"
    "\<forall>e. f (calls noCalls + m - 1) = Inl e \<longrightarrow>
          \<not> shouldRetryError e \<or> 1 + m - 1 = maxRetries defaultRetryConfig"
    by blast
  from m(3) have c: "calls w = m" by (simp add: noCalls_def)
  from m(1,2) four(2) have range: "m = 1 \<or> m = 2 \<or> m = 3 \<or> m = 4" by auto
  from m(4) have d: "delays w = map (\<lambda>attempt. min (1500 * 2 ^ (attempt - 1)) 15000) [1..<m]"
    by (simp add: noCalls_def default_backoff)
  from range have t: "map (\<lambda>attempt. min (1500 * 2 ^ (attempt - 1)) 15000) [1..<m]
                      = take (m - 1) [1500, 3000, 6000 :: nat]"
    by (auto simp: upt_rec numeral_2_eq_2 numeral_3_eq_3)
  from m(5) have a: "\<forall>k<m - 1. \<exists>e. f k = Inl e \<and> shouldRetryError e"
    by (simp add: noCalls_def)
  from m(6) have res: "r = (case f (m - 1) of Inr v \<Rightarrow> Inr v | Inl e \<Rightarrow> Inl (Thrown e))"
    by (simp add: noCalls_def)
  from m(7) four(2) have l: "\<forall>e. f (m - 1) = Inl e \<longrightarrow> \<not> shouldRetryError e \<or> m = 4"
    by (simp add: noCalls_def)
  from m(1) range d t a res l show ?thesis unfolding c by auto
qed

lemmas retry_eval =
  retryWithBackoff_def retryFrom_step defaultRetryConfig_def backoffDelay_def noCalls_def
  sleep_def shouldRetryError_throttled shouldRetryError_denied

text \<open>
  Four retries are never made: when the first four invocations fail with a retryable error
  and a fifth would succeed, the error of the fourth is thrown after three delays.
\<close>

theorem fifth_attempt_never_made:
  "shouldRetryError throttled
   \<and> succeedsOnFifth 4 = Inr 7
   \<and> retryWithBackoff defaultRetryConfig (scripted succeedsOnFifth) sleep noCalls
       = (Inl (Thrown throttled), \<lparr>calls = 4, delays = [1500, 3000, 6000]\<rparr>)"
  by (simp add: retry_eval succeedsOnFifth_def)

theorem retryWithBackoff_schedule_witness:
  "retryWithBackoff defaultRetryConfig (scripted deniedOnThird) sleep noCalls
     = (Inl (Thrown denied), \<lparr>calls = 3, delays = [1500, 3000]\<rparr>)
   \<and> shouldRetryError throttled \<and> \<not> shouldRetryError denied
   \<and> deniedOnThird 0 = Inl throttled \<and> deniedOnThird 1 = Inl throttled
   \<and> deniedOnThird 2 = Inl denied
   \<and> delays \<lparr>calls = 3, delays = [1500, 3000]\<rparr>
       = take (calls \<lparr>calls = 3, delays = [1500, 3000]\<rparr> - 1) [1500, 3000, 6000]"
proof -
  have run: "retryWithBackoff defaultRetryConfig (scripted deniedOnThird) sleep noCalls
     = (Inl (Thrown denied), \<lparr>calls = 3, delays = [1500, 3000]\<rparr>)"
    by (simp add: retry_eval deniedOnThird_def)
  from retryWithBackoff_schedule [OF run]
  have "delays \<lparr>calls = 3, delays = [1500, 3000]\<rparr>
       = take (calls \<lparr>calls = 3, delays = [1500, 3000]\<rparr> - 1) [1500, 3000, 6000]"
    by blast
  with run show ?thesis
    by (simp add: shouldRetryError_throttled shouldRetryError_denied deniedOnThird_def)
qed

section \<open>Properties of the region assignment\<close>

text \<open>
  Claim C7, as amended. In \<^verbatim>\<open>createProxies(count, regions)\<close> the list in use is the
  supplied one, or the manager's default list when none is supplied (\<^verbatim>\<open>null\<close>). When the
  list in use is not empty, every unit \<open>i\<close> below \<open>count\<close> is assigned its element
  \<open>i mod length\<close>. \<^verbatim>\<open>getNextRegion\<close> returns the region under the cursor and advances the
  cursor by one modulo the length of the default list.
\<close>

theorem targetRegions_round_robin:
  "(availableRegions = (case regionsArg of None \<Rightarrow> regions pm | Some rs \<Rightarrow> rs)
      \<and> availableRegions \<noteq> [] \<longrightarrow>
        length (targetRegions pm n regionsArg) = n
        \<and> (\<forall>i<n. targetRegions pm n regionsArg ! i
                    = Some (availableRegions ! (i mod length availableRegions))))
   \<and> targetRegions pm n None = targetRegions pm n (Some (regions pm))
   \<and> (currentRegionIndex pm = Some c \<and> c < length (regions pm) \<longrightarrow>
        getNextRegion pm
          = (Some (regions pm ! c), pm\<lparr>currentRegionIndex := Some ((c + 1) mod length (regions pm))\<rparr>))"
  by (auto simp: targetRegions_def regionFor_def getNextRegion_def Let_def)

text \<open>
  A supplied empty list is neither replaced by the default list nor rejected: both units
  get \<^verbatim>\<open>undefined\<close>, with a non-empty and with an empty default list.
\<close>

theorem empty_region_list_counterexample:
  "regions newProxyManager = [''us-east-1'', ''us-east-2'', ''us-west-1'', ''ca-central-1'']
   \<and> targetRegions newProxyManager 2 (Some []) = [None, None]
   \<and> targetRegions newProxyManager 2 (Some []) \<noteq> [Some ''us-east-1'', Some ''us-east-2'']
   \<and> targetRegions (newProxyManager\<lparr>regions := []\<rparr>) 2 (Some []) = [None, None]"
  by (simp add: targetRegions_def regionFor_def newProxyManager_def numeral_2_eq_2)

theorem targetRegions_round_robin_witness:
  "[''eu-west-1'', ''eu-west-2''] \<noteq> []
   \<and> targetRegions newProxyManager 3 (Some [''eu-west-1'', ''eu-west-2''])
       = [Some ''eu-west-1'', Some ''eu-west-2'', Some ''eu-west-1'']
   \<and> targetRegions newProxyManager 5 None
       = [Some ''us-east-1'', Some ''us-east-2'', Some ''us-west-1'', Some ''ca-central-1'',
          Some ''us-east-1'']
   \<and> targetRegions newProxyManager 5 None ! 4 = Some (regions newProxyManager ! (4 mod 4))
   \<and> fst (getNextRegion (newProxyManager\<lparr>currentRegionIndex := Some 3\<rparr>)) = Some ''ca-central-1''
   \<and> currentRegionIndex (snd (getNextRegion (newProxyManager\<lparr>currentRegionIndex := Some 3\<rparr>)))
       = Some 0"
proof -
  have ev: "targetRegions newProxyManager 3 (Some [''eu-west-1'', ''eu-west-2''])
       = [Some ''eu-west-1'', Some ''eu-west-2'', Some ''eu-west-1'']"
    "targetRegions newProxyManager 5 None
       = [Some ''us-east-1'', Some ''us-east-2'', Some ''us-west-1'', Some ''ca-central-1'',
          Some ''us-east-1'']"
    by (simp_all add: targetRegions_def regionFor_def newProxyManager_def upt_rec)
  have len: "length (regions newProxyManager) = 4" "regions newProxyManager \<noteq> []"
    by (simp_all add: newProxyManager_def)
  note inst = targetRegions_round_robin
    [where availableRegions = "regions newProxyManager" and regionsArg = None
       and pm = newProxyManager and n = 5 and c = 3]
  have pre: "regions newProxyManager = (case None of None \<Rightarrow> regions newProxyManager | Some rs \<Rightarrow> rs)
      \<and> regions newProxyManager \<noteq> []"
    using len by simp
  have four: "(4::nat) < 5" by simp
  from inst [THEN conjunct1, rule_format, OF pre, THEN conjunct2, rule_format, OF four] len
  have "targetRegions newProxyManager 5 None ! 4
      = Some (regions newProxyManager ! (4 mod 4))"
    by simp
  moreover
  note inst2 = targetRegions_round_robin
    [where availableRegions = "regions newProxyManager" and regionsArg = None
       and pm = "newProxyManager\<lparr>currentRegionIndex := Some 3\<rparr>" and n = 5 and c = 3]
  from inst2 len
  have "getNextRegion (newProxyManager\<lparr>currentRegionIndex := Some 3\<rparr>)
          = (Some (regions newProxyManager ! 3),
             newProxyManager\<lparr>currentRegionIndex := Some ((3 + 1) mod 4)\<rparr>)"
    by simp
  then have "fst (getNextRegion (newProxyManager\<lparr>currentRegionIndex := Some 3\<rparr>)) = Some ''ca-central-1''"
    "currentRegionIndex (snd (getNextRegion (newProxyManager\<lparr>currentRegionIndex := Some 3\<rparr>))) = Some 0"
    by (simp_all add: newProxyManager_def)
  ultimately show ?thesis using ev by simp
qed

section \<open>Properties of concurrent resource creation\<close>

lemmas step_defs =
  stepCaller_def stepCreation_def checkCacheThen_def lockLoop_def setPc_def settled_def

lemma retryWithBackoff_first_try:
  "f 0 = Inr a \<Longrightarrow>
   retryWithBackoff defaultRetryConfig (scripted f) sleep noCalls = (Inr a, \<lparr>calls = 1, delays = []\<rparr>)"
  by (simp add: retryWithBackoff_def retryFrom_step defaultRetryConfig_def noCalls_def)

lemma length_callers_step:
  "step cloud act s = Some s' \<Longrightarrow> length (callers s') = length (callers s)"
  by (cases act)
     (auto simp: step_defs Let_def
           split: if_splits prod.splits callerPc.splits option.splits sum.splits creationState.splits)

lemma invA_step:
  assumes "invA r s" and "step cloud act s = Some s'"
  shows "invB r s'"
proof (cases act)
  case (Caller i)
  with assms show ?thesis
    by (auto simp: invA_def invB_def step_defs Let_def nth_list_update
             split: if_splits)
next
  case (Creation p)
  with assms show ?thesis
    by (simp add: invA_def stepCreation_def)
qed

lemma invB_step:
  assumes "invB r s" and "step cloud act s = Some s'"
    and "retryWithBackoff defaultRetryConfig (scripted (cloud 0)) sleep noCalls = (Inr a, w)"
  shows "invB r s' \<or> invC r a (calls w) s'"
proof (cases act)
  case (Caller i)
  from assms(1) obtain c where c: "c < length (callers s)" "callers s ! c = (r, AwaitCreation 0)"
    and others: "\<forall>j<length (callers s). j \<noteq> c \<longrightarrow>
                    callers s ! j = (r, NotCalled) \<or> callers s ! j = (r, AwaitMutex 0)"
    by (auto simp: invB_def)
  from assms(2) Caller have i: "i < length (callers s)"
    by (simp add: stepCaller_def split: if_splits)
  from assms(1) have pending: "settled s 0 = None"
    by (auto simp: invB_def settled_def)
  show ?thesis
  proof (cases "i = c")
    case True
    with assms(2) Caller c pending show ?thesis
      by (simp add: stepCaller_def)
  next
    case False
    with others i have pc: "callers s ! i = (r, NotCalled) \<or> callers s ! i = (r, AwaitMutex 0)"
      by simp
    with assms(2) Caller i pending assms(1)
    have s': "s' = setPc i r (AwaitMutex 0) s"
      by (auto simp: stepCaller_def checkCacheThen_def invB_def)
    have "invB r s'"
      unfolding invB_def s' setPc_def using assms(1) c others False i
      by (auto simp: invB_def nth_list_update intro!: exI [of _ c])
    then show ?thesis ..
  qed
next
  case (Creation p)
  from assms(1) have base: "taskDefinitionCache s = []" "taskDefinitionMutex s = [(r, 0)]"
    "globalTaskDefinitionLock s = Some 0" "registerCalls s = []"
    and cs: "creations s = [(r, Delaying)] \<or> creations s = [(r, Registering)]"
    and who: "\<exists>i<length (callers s). callers s ! i = (r, AwaitCreation 0)
             \<and> (\<forall>j<length (callers s). j \<noteq> i \<longrightarrow>
                    callers s ! j = (r, NotCalled) \<or> callers s ! j = (r, AwaitMutex 0))"
    by (simp_all add: invB_def)
  from assms(2) Creation cs have p: "p = 0"
    by (auto simp: stepCreation_def split: if_splits)
  from cs show ?thesis
  proof
    assume d: "creations s = [(r, Delaying)]"
    with assms(2) Creation p
    have "s' = s\<lparr>creations := [(r, Registering)]\<rparr>"
      by (simp add: stepCreation_def)
    with base who have "invB r s'" by (simp add: invB_def)
    then show ?thesis ..
  next
    assume g: "creations s = [(r, Registering)]"
    with assms(2,3) Creation p base
    have "s' = s\<lparr>creations := [(r, Fulfilled a)],
                   registerCalls := replicate (calls w) r,
                   taskDefinitionCache := [(r, a)]\<rparr>"
      by (simp add: stepCreation_def)
    with base who g have "invC r a (calls w) s'" by (auto simp: invC_def)
    then show ?thesis ..
  qed
qed

lemma invC_step:
  assumes "invC r a m s" and "step cloud act s = Some s'"
  shows "invC r a m s' \<or> invD r a m s'"
proof (cases act)
  case (Caller i)
  from assms(1) obtain c where c: "c < length (callers s)" "callers s ! c = (r, AwaitCreation 0)"
    and others: "\<forall>j<length (callers s). j \<noteq> c \<longrightarrow>
                    callers s ! j = (r, NotCalled) \<or> callers s ! j = (r, AwaitMutex 0)
                    \<or> callers s ! j = (r, Returned a)"
    by (auto simp: invC_def)
  from assms(2) Caller have i: "i < length (callers s)"
    by (simp add: stepCaller_def split: if_splits)
  from assms(1) have ful: "settled s 0 = Some (Inr a)"
    and cache: "map_of (taskDefinitionCache s) r = Some a"
    by (auto simp: invC_def settled_def)
  show ?thesis
  proof (cases "i = c")
    case True
    with assms(2) Caller c ful
    have s': "s' = setPc c r (Returned a)
                (s\<lparr>taskDefinitionMutex := AList.delete r (taskDefinitionMutex s),
                   globalTaskDefinitionLock :=
                     (if globalTaskDefinitionLock s = Some 0 then None
                      else globalTaskDefinitionLock s)\<rparr>)"
      by (simp add: stepCaller_def)
    have "invD r a m s'"
      unfolding invD_def s' setPc_def using assms(1) c others
      by (auto simp: invC_def nth_list_update AList.delete_eq)
    then show ?thesis ..
  next
    case False
    with others i have pc: "callers s ! i = (r, NotCalled) \<or> callers s ! i = (r, AwaitMutex 0)
        \<or> callers s ! i = (r, Returned a)"
      by simp
    with assms(2) Caller i ful cache
    have s': "s' = setPc i r (Returned a) s"
      by (auto simp: stepCaller_def checkCacheThen_def)
    have "invC r a m s'"
      unfolding invC_def s' setPc_def using assms(1) c others False i
      by (auto simp: invC_def nth_list_update intro!: exI [of _ c])
    then show ?thesis ..
  qed
next
  case (Creation p)
  with assms show ?thesis
    by (auto simp: invC_def stepCreation_def split: if_splits)
qed

lemma invD_step:
  assumes "invD r a m s" and "step cloud act s = Some s'"
  shows "invD r a m s'"
proof (cases act)
  case (Caller i)
  from assms(1) have all: "\<forall>j<length (callers s). callers s ! j = (r, NotCalled)
             \<or> callers s ! j = (r, AwaitMutex 0) \<or> callers s ! j = (r, Returned a)"
    by (simp add: invD_def)
  from assms(2) Caller have i: "i < length (callers s)"
    by (simp add: stepCaller_def split: if_splits)
  from assms(1) have ful: "settled s 0 = Some (Inr a)"
    and cache: "map_of (taskDefinitionCache s) r = Some a"
    by (auto simp: invD_def settled_def)
  from all i have pc: "callers s ! i = (r, NotCalled) \<or> callers s ! i = (r, AwaitMutex 0)
        \<or> callers s ! i = (r, Returned a)"
    by simp
  with assms(2) Caller i ful cache
  have s': "s' = setPc i r (Returned a) s"
    by (auto simp: stepCaller_def checkCacheThen_def)
  show ?thesis
    unfolding invD_def s' setPc_def using assms(1) i
    by (auto simp: invD_def nth_list_update)
next
  case (Creation p)
  with assms show ?thesis
    by (auto simp: invD_def stepCreation_def split: if_splits)
qed

lemma sameRegionInv_run:
  assumes "retryWithBackoff defaultRetryConfig (scripted (cloud 0)) sleep noCalls = (Inr a, w)"
  shows "sameRegionInv r a (calls w) s \<Longrightarrow> run cloud sched s = Some s' \<Longrightarrow>
           sameRegionInv r a (calls w) s' \<and> length (callers s') = length (callers s)"
proof (induction sched arbitrary: s)
  case Nil
  then show ?case by simp
next
  case (Cons act sched)
  from Cons.prems(2) obtain s1 where st: "step cloud act s = Some s1"
    and rest: "run cloud sched s1 = Some s'"
    by (auto split: option.splits)
  from Cons.prems(1)
  have "invA r s \<or> invB r s \<or> invC r a (calls w) s \<or> invD r a (calls w) s"
    by (simp add: sameRegionInv_def)
  then have "sameRegionInv r a (calls w) s1"
  proof (elim disjE)
    assume "invA r s"
    from invA_step [OF this st] show ?thesis by (simp add: sameRegionInv_def)
  next
    assume "invB r s"
    from invB_step [OF this st assms] show ?thesis by (auto simp: sameRegionInv_def)
  next
    assume "invC r a (calls w) s"
    from invC_step [OF this st] show ?thesis by (auto simp: sameRegionInv_def)
  next
    assume "invD r a (calls w) s"
    from invD_step [OF this st] show ?thesis by (simp add: sameRegionInv_def)
  qed
  from Cons.IH [OF this rest] length_callers_step [OF st] show ?case by simp
qed

lemma initial_invA: "invA r (initialTaskDefState (replicate n r))"
  by (simp add: invA_def initialTaskDefState_def)

text \<open>
  What the region mutex achieves. When all callers are for one region and the creation
  succeeds, every interleaving that runs the callers to their end leaves exactly the cloud
  calls of that one creation in the log, and every caller returns the created ARN: the
  callers that did not start the creation waited on the region mutex or found the cache
  filled.
\<close>

lemma same_region_callers_one_creation:
  assumes "run cloud sched (initialTaskDefState (replicate n r)) = Some s"
    and "retryWithBackoff defaultRetryConfig (scripted (cloud 0)) sleep noCalls = (Inr a, w)"
    and "0 < n"
    and "\<forall>c \<in> set (callers s). finished (snd c)"
  shows "registerCalls s = replicate (calls w) r \<and> callers s = replicate n (r, Returned a)
         \<and> creations s = [(r, Fulfilled a)]
         \<and> map_of (taskDefinitionCache s) r = Some a
         \<and> taskDefinitionMutex s = [] \<and> globalTaskDefinitionLock s = None"
proof -
  have "sameRegionInv r a (calls w) (initialTaskDefState (replicate n r))"
    by (simp add: sameRegionInv_def initial_invA)
  from sameRegionInv_run [OF assms(2) this assms(1)]
  have inv: "sameRegionInv r a (calls w) s" and len: "length (callers s) = n"
    by (simp_all add: initialTaskDefState_def)
  from assms(4) have fin: "\<forall>j<length (callers s). finished (snd (callers s ! j))"
    by simp
  from assms(3) len have pos: "0 < length (callers s)" by simp
  have notA: "\<not> invA r s"
    using fin pos by (auto simp: invA_def finished_def)
  have notB: "\<not> invB r s"
    using fin by (auto simp: invB_def finished_def)
  have notC: "\<not> invC r a (calls w) s"
    using fin by (auto simp: invC_def finished_def)
  from inv notA notB notC have d: "invD r a (calls w) s"
    by (simp add: sameRegionInv_def)
  have "callers s ! j = (r, Returned a)" if j: "j < length (callers s)" for j
  proof -
    from d j have "callers s ! j = (r, NotCalled) \<or> callers s ! j = (r, AwaitMutex 0)
        \<or> callers s ! j = (r, Returned a)"
      by (simp add: invD_def)
    moreover from fin j have "finished (snd (callers s ! j))" by simp
    ultimately show ?thesis by (auto simp: finished_def)
  qed
  with len have "callers s = replicate n (r, Returned a)"
    by (auto intro: nth_equalityI)
  with d show ?thesis
    by (simp add: invD_def)
qed

lemma firstTrySucceeds_run:
  "retryWithBackoff defaultRetryConfig (scripted (firstTrySucceeds p)) sleep noCalls
     = (Inr (''arn:td:'' @ showNat p), \<lparr>calls = 1, delays = []\<rparr>)"
  by (rule retryWithBackoff_first_try) (simp add: firstTrySucceeds_def)

lemma two_callers_example:
  "run firstTrySucceeds [Caller 0, Caller 1, Creation 0, Creation 0, Caller 1, Caller 0]
          (initialTaskDefState [''us-east-1'', ''us-east-1''])
   = Some \<lparr>taskDefinitionCache = [(''us-east-1'', ''arn:td:0'')], taskDefinitionMutex = [],
           globalTaskDefinitionLock = None,
           creations = [(''us-east-1'', Fulfilled ''arn:td:0'')],
           registerCalls = [''us-east-1''],
           callers = [(''us-east-1'', Returned ''arn:td:0''), (''us-east-1'', Returned ''arn:td:0'')]\<rparr>"
  by (simp add: step_defs initialTaskDefState_def firstTrySucceeds_run showNat.simps)

text \<open>
  Claim C4 at a concrete input: two callers for \<open>us-east-1\<close> and one for \<open>us-east-2\<close>, as in
  the first batch of \<^verbatim>\<open>createProxies(5)\<close> with the default regions. The \<open>us-east-2\<close> caller
  enters first and holds the global lock; both \<open>us-east-1\<close> callers find cache and mutex
  empty and wait in the lock loop. The code after the loop does not look at the cache or
  the mutex again, so after the first of them has created the task definition and released
  the lock, the second creates it once more: two creation calls for \<open>us-east-1\<close>, and the
  two callers return different ARNs.
\<close>

theorem createTaskDefinition_creates_twice_behind_global_lock:
  "run firstTrySucceeds
     [Caller 2, Caller 0, Caller 1, Creation 0, Creation 0, Caller 2, Caller 0, Caller 1,
      Creation 1, Creation 1, Caller 0, Caller 1, Creation 2, Creation 2, Caller 1]
     (initialTaskDefState [''us-east-1'', ''us-east-1'', ''us-east-2''])
   = Some \<lparr>taskDefinitionCache = [(''us-east-2'', ''arn:td:0''), (''us-east-1'', ''arn:td:2'')],
           taskDefinitionMutex = [], globalTaskDefinitionLock = None,
           creations = [(''us-east-2'', Fulfilled ''arn:td:0''),
                        (''us-east-1'', Fulfilled ''arn:td:1''),
                        (''us-east-1'', Fulfilled ''arn:td:2'')],
           registerCalls = [''us-east-2'', ''us-east-1'', ''us-east-1''],
           callers = [(''us-east-1'', Returned ''arn:td:1''),
                      (''us-east-1'', Returned ''arn:td:2''),
                      (''us-east-2'', Returned ''arn:td:0'')]\<rparr>"
  by (simp add: step_defs initialTaskDefState_def firstTrySucceeds_run showNat.simps)

text \<open>
  \<^verbatim>\<open>ensureSecurityGroup\<close> has a cache but no mutex. Two callers for one region that both
  pass the cache check and both find no existing group each send a creation request; the
  second request fails as a duplicate and is recovered by looking the group up.
\<close>

lemmas ensure_eval = stepEnsure_def initialSecGroupState_def newGroupId_def showNat.simps Let_def

lemma two_ensureSecurityGroup_calls_create_twice:
  "runEnsure [0, 1, 0, 1, 0, 1] (initialSecGroupState [''us-east-1'', ''us-east-1''])
   = Some \<lparr>securityGroupCache = [(''us-east-1'', ''sg-0'')],
           cloudGroups = [(''us-east-1'', ''sg-0'')],
           createCalls = [''us-east-1'', ''us-east-1''],
           ensureCallers = [(''us-east-1'', EnsureReturned ''sg-0''),
                            (''us-east-1'', EnsureReturned ''sg-0'')]\<rparr>"
  by (simp add: ensure_eval)

end
